theory Spec2Isabelle
  imports Complex_Main "HOL-Library.Word"
begin

section \<open>The extrema scan of \<^verbatim>\<open>src/cextrema.c\<close>\<close>

text \<open>
  The repository is one routine, \<^verbatim>\<open>cextrema\<close>: it walks the interior cells of a
  row-major grid of floats, compares each cell with its 3x3 neighbourhood, marks local
  maxima (+1) and minima (-1) in an output map and records their coordinates in two
  arrays of bounded capacity.

  The embedding follows the C text line by line.
  \<^item> \<^verbatim>\<open>size_t\<close> is a 64-bit word and \<^verbatim>\<open>int\<close> a 32-bit word; \<open>+\<close>, \<open>-\<close> and \<open>*\<close> on
    \<^verbatim>\<open>size_t\<close> wrap around, as in C (\<^verbatim>\<open>imax - 1\<close> is \<open>2^64 - 1\<close> for \<^verbatim>\<open>imax = 0\<close>).
  \<^item> A float sample is only ever compared with \<^verbatim>\<open><\<close> and \<^verbatim>\<open>>\<close>, so the sample type
    is any type with a comparison \<open><\<close>; \<^verbatim>\<open>a > b\<close> is \<open>b < a\<close>. Nothing is assumed
    about \<open><\<close>, which covers the IEEE comparison (false whenever a NaN is involved).
    The cells of the output map are reals; the scan only stores \<open>1\<close> and \<open>-1\<close> there.
  \<^item> Every buffer is a list. The buffers are taken to be pairwise disjoint (the C
    pointers do not alias). An access outside a buffer, and the overflow of a signed
    counter, are undefined behaviour in C: the model stops there with a \<open>fault\<close>.
  \<^item> The four \<^verbatim>\<open>for\<close> loops are four recursive functions over their counters, each
    with its termination proof.
  \<^item> \<^verbatim>\<open>min_index\<close>, which the minima branch tests and increments, is declared nowhere
    in the source: it is neither a parameter of the routine nor one of the locals
    declared at its top. It is taken as a variable of the index type that lives outside
    the routine: a field of the state whose value at entry is a parameter. The routine
    never assigns it; it only increments it.
\<close>

type_synonym size_t = "64 word"
type_synonym c_int = "32 word"

datatype fault = OutOfBounds | SignedOverflow

text \<open>
  What the routine can write: the output map, the four coordinate arrays, the two
  reference parameters \<^verbatim>\<open>maxima_length\<close> and \<^verbatim>\<open>minima_length\<close>, and \<^verbatim>\<open>min_index\<close>.
\<close>

record outputs =
  extrema :: "real list"
  maxima_x :: "c_int list"
  maxima_y :: "c_int list"
  minima_x :: "c_int list"
  minima_y :: "c_int list"
  maxima_length :: c_int
  minima_length :: c_int
  min_index :: size_t

subsection \<open>Array accesses\<close>

text \<open>\<^verbatim>\<open>a[k]\<close> with \<^verbatim>\<open>k\<close> of type \<^verbatim>\<open>size_t\<close>: a read and a write.\<close>

definition rd :: "'a list \<Rightarrow> size_t \<Rightarrow> fault + 'a" where
  "rd xs k = (if unat k < length xs then Inr (xs ! unat k) else Inl OutOfBounds)"

definition wr :: "'a list \<Rightarrow> size_t \<Rightarrow> 'a \<Rightarrow> fault + 'a list" where
  "wr xs k v = (if unat k < length xs then Inr (xs[unat k := v]) else Inl OutOfBounds)"

text \<open>\<^verbatim>\<open>a[n] = v\<close> with \<^verbatim>\<open>n\<close> of type \<^verbatim>\<open>int\<close>: a negative index is outside the array.\<close>

definition wr_int :: "'a list \<Rightarrow> c_int \<Rightarrow> 'a \<Rightarrow> fault + 'a list" where
  "wr_int xs n v =
     (if 0 \<le> sint n \<and> nat (sint n) < length xs then Inr (xs[nat (sint n) := v])
      else Inl OutOfBounds)"

text \<open>\<^verbatim>\<open>n++\<close> on an \<^verbatim>\<open>int\<close>: overflow at \<^verbatim>\<open>INT_MAX\<close> is undefined.\<close>

definition INT_MAX :: c_int where
  "INT_MAX = 0x7FFFFFFF"

definition incr_int :: "c_int \<Rightarrow> fault + c_int" where
  "incr_int n = (if n = INT_MAX then Inl SignedOverflow else Inr (n + 1))"

subsection \<open>The two inner loops: the 3x3 neighbourhood\<close>

text \<open>
  \<^verbatim>\<open>for (inner_j = j - 1; inner_j < j + 2; ++inner_j)\<close> with its body
  \<^verbatim>\<open>if (data[inner_i * jmax + inner_j] > data_val) is_max = false;\<close>
  \<^verbatim>\<open>if (data[inner_i * jmax + inner_j] < data_val) is_min = false;\<close>
  The two conditions read the same cell; the model reads it once. The pair of flags is
  \<open>(is_max, is_min)\<close>.
\<close>

function inner_j_loop ::
  "('a::ord) list \<Rightarrow> size_t \<Rightarrow> 'a \<Rightarrow> size_t \<Rightarrow> size_t \<Rightarrow> size_t \<Rightarrow> bool \<times> bool
     \<Rightarrow> fault + bool \<times> bool" where
  "inner_j_loop data jmax data_val j inner_i inner_j (is_max, is_min) =
     (if inner_j < j + 2 then
        (case rd data (inner_i * jmax + inner_j) of
           Inl e \<Rightarrow> Inl e
         | Inr v \<Rightarrow>
             inner_j_loop data jmax data_val j inner_i (inner_j + 1)
               (if data_val < v then False else is_max,
                if v < data_val then False else is_min))
      else Inr (is_max, is_min))"
  by pat_completeness auto
termination
proof (relation "measure (\<lambda>(data, jmax, data_val, j, inner_i, inner_j, flags).
                    unat (j + 2) - unat inner_j)", goal_cases)
  case 1
  show ?case by simp
next
  case (2 data jmax data_val j inner_i inner_j is_max is_min v)
  have succ: "unat (x + 1) = Suc (unat x)" if "x < y" for x y :: size_t
    using that by unat_arith
  from 2(1) have "unat (inner_j + 1) = Suc (unat inner_j)"
    by (rule succ)
  with 2(1) show ?case
    by (simp add: word_less_nat_alt)
qed

text \<open>
  \<^verbatim>\<open>for (inner_i = i - 1; inner_i < i + 2; ++inner_i)\<close> around the loop over
  \<^verbatim>\<open>inner_j\<close>, which starts at \<^verbatim>\<open>j - 1\<close>.
\<close>

function inner_i_loop ::
  "('a::ord) list \<Rightarrow> size_t \<Rightarrow> 'a \<Rightarrow> size_t \<Rightarrow> size_t \<Rightarrow> size_t \<Rightarrow> bool \<times> bool
     \<Rightarrow> fault + bool \<times> bool" where
  "inner_i_loop data jmax data_val i j inner_i flags =
     (if inner_i < i + 2 then
        (case inner_j_loop data jmax data_val j inner_i (j - 1) flags of
           Inl e \<Rightarrow> Inl e
         | Inr flags' \<Rightarrow> inner_i_loop data jmax data_val i j (inner_i + 1) flags')
      else Inr flags)"
  by pat_completeness auto
termination
proof (relation "measure (\<lambda>(data, jmax, data_val, i, j, inner_i, flags).
                    unat (i + 2) - unat inner_i)", goal_cases)
  case 1
  show ?case by simp
next
  case (2 data jmax data_val i j inner_i flags flags')
  have succ: "unat (x + 1) = Suc (unat x)" if "x < y" for x y :: size_t
    using that by unat_arith
  from 2(1) have "unat (inner_i + 1) = Suc (unat inner_i)"
    by (rule succ)
  with 2(1) show ?case
    by (simp add: word_less_nat_alt)
qed

subsection \<open>One interior cell\<close>

text \<open>
  The first half of the body of the loop over \<^verbatim>\<open>j\<close>: \<^verbatim>\<open>is_max = true; is_min = true;\<close>
  \<^verbatim>\<open>data_val = data[i * jmax + j];\<close> and the two inner loops from \<^verbatim>\<open>i - 1\<close>.
\<close>

definition neighbourhood ::
  "('a::ord) list \<Rightarrow> size_t \<Rightarrow> size_t \<Rightarrow> size_t \<Rightarrow> fault + bool \<times> bool" where
  "neighbourhood data jmax i j =
     (case rd data (i * jmax + j) of
        Inl e \<Rightarrow> Inl e
      | Inr data_val \<Rightarrow> inner_i_loop data jmax data_val i j (i - 1) (True, True))"

text \<open>
  The second half:

  \<^verbatim>\<open>if (is_max) {\<close>
  \<^verbatim>\<open>    extrema[i * jmax + j] = 1;\<close>
  \<^verbatim>\<open>    if (maxima_length < min_max_length) {\<close>
  \<^verbatim>\<open>        maxima_x[maxima_length] = i; maxima_y[maxima_length] = j; maxima_length++; }\<close>
  \<^verbatim>\<open>} else if (is_min) {\<close>
  \<^verbatim>\<open>    if (min_index < min_max_length) {\<close>
  \<^verbatim>\<open>        extrema[i * jmax + j] = -1;\<close>
  \<^verbatim>\<open>        minima_x[min_index] = i; minima_y[min_index] = j; min_index++; }\<close>
  \<^verbatim>\<open>}\<close>

  In \<^verbatim>\<open>maxima_length < min_max_length\<close> the \<^verbatim>\<open>int\<close> is converted to \<^verbatim>\<open>size_t\<close> (\<open>scast\<close>);
  storing the \<^verbatim>\<open>size_t\<close> coordinates in the \<^verbatim>\<open>int\<close> arrays keeps their low 32 bits
  (\<open>ucast\<close>). The maxima branch writes the map before the capacity test, the minima
  branch inside it; \<^verbatim>\<open>minima_length\<close> is not touched.
\<close>

definition classify ::
  "size_t \<Rightarrow> size_t \<Rightarrow> size_t \<Rightarrow> size_t \<Rightarrow> bool \<Rightarrow> bool \<Rightarrow> outputs \<Rightarrow> fault + outputs" where
  "classify jmax min_max_length i j is_max is_min s =
     (if is_max then
        (case wr (extrema s) (i * jmax + j) 1 of
           Inl e \<Rightarrow> Inl e
         | Inr ex \<Rightarrow>
             if scast (maxima_length s) < min_max_length then
               (case wr_int (maxima_x s) (maxima_length s) (ucast i) of
                  Inl e \<Rightarrow> Inl e
                | Inr mx \<Rightarrow>
               (case wr_int (maxima_y s) (maxima_length s) (ucast j) of
                  Inl e \<Rightarrow> Inl e
                | Inr my \<Rightarrow>
               (case incr_int (maxima_length s) of
                  Inl e \<Rightarrow> Inl e
                | Inr n \<Rightarrow>
                    Inr (s\<lparr>extrema := ex, maxima_x := mx, maxima_y := my,
                            maxima_length := n\<rparr>))))
             else Inr (s\<lparr>extrema := ex\<rparr>))
      else if is_min then
        (if min_index s < min_max_length then
           (case wr (extrema s) (i * jmax + j) (- 1) of
              Inl e \<Rightarrow> Inl e
            | Inr ex \<Rightarrow>
           (case wr (minima_x s) (min_index s) (ucast i) of
              Inl e \<Rightarrow> Inl e
            | Inr mx \<Rightarrow>
           (case wr (minima_y s) (min_index s) (ucast j) of
              Inl e \<Rightarrow> Inl e
            | Inr my \<Rightarrow>
                Inr (s\<lparr>extrema := ex, minima_x := mx, minima_y := my,
                        min_index := min_index s + 1\<rparr>))))
         else Inr s)
      else Inr s)"

definition cell ::
  "('a::ord) list \<Rightarrow> size_t \<Rightarrow> size_t \<Rightarrow> size_t \<Rightarrow> size_t \<Rightarrow> outputs \<Rightarrow> fault + outputs" where
  "cell data jmax min_max_length i j s =
     (case neighbourhood data jmax i j of
        Inl e \<Rightarrow> Inl e
      | Inr (is_max, is_min) \<Rightarrow> classify jmax min_max_length i j is_max is_min s)"

subsection \<open>The two outer loops and the routine\<close>

text \<open>\<^verbatim>\<open>for (j = 1; j < jmax - 1; ++j)\<close>, from the current \<^verbatim>\<open>j\<close>.\<close>

function j_loop ::
  "('a::ord) list \<Rightarrow> size_t \<Rightarrow> size_t \<Rightarrow> size_t \<Rightarrow> size_t \<Rightarrow> outputs \<Rightarrow> fault + outputs" where
  "j_loop data jmax min_max_length i j s =
     (if j < jmax - 1 then
        (case cell data jmax min_max_length i j s of
           Inl e \<Rightarrow> Inl e
         | Inr s' \<Rightarrow> j_loop data jmax min_max_length i (j + 1) s')
      else Inr s)"
  by pat_completeness auto
termination
proof (relation "measure (\<lambda>(data, jmax, min_max_length, i, j, s).
                    unat (jmax - 1) - unat j)", goal_cases)
  case 1
  show ?case by simp
next
  case (2 data jmax min_max_length i j s s')
  have succ: "unat (x + 1) = Suc (unat x)" if "x < y" for x y :: size_t
    using that by unat_arith
  from 2(1) have "unat (j + 1) = Suc (unat j)"
    by (rule succ)
  with 2(1) show ?case
    by (simp add: word_less_nat_alt)
qed

text \<open>\<^verbatim>\<open>for (i = 1; i < imax - 1; ++i)\<close>, from the current \<^verbatim>\<open>i\<close>; each row starts at \<^verbatim>\<open>j = 1\<close>.\<close>

function i_loop ::
  "('a::ord) list \<Rightarrow> size_t \<Rightarrow> size_t \<Rightarrow> size_t \<Rightarrow> size_t \<Rightarrow> outputs \<Rightarrow> fault + outputs" where
  "i_loop data imax jmax min_max_length i s =
     (if i < imax - 1 then
        (case j_loop data jmax min_max_length i 1 s of
           Inl e \<Rightarrow> Inl e
         | Inr s' \<Rightarrow> i_loop data imax jmax min_max_length (i + 1) s')
      else Inr s)"
  by pat_completeness auto
termination
proof (relation "measure (\<lambda>(data, imax, jmax, min_max_length, i, s).
                    unat (imax - 1) - unat i)", goal_cases)
  case 1
  show ?case by simp
next
  case (2 data imax jmax min_max_length i s s')
  have succ: "unat (x + 1) = Suc (unat x)" if "x < y" for x y :: size_t
    using that by unat_arith
  from 2(1) have "unat (i + 1) = Suc (unat i)"
    by (rule succ)
  with 2(1) show ?case
    by (simp add: word_less_nat_alt)
qed

text \<open>
  The routine: \<^verbatim>\<open>maxima_length = 0; minima_length = 0;\<close> and the loop over \<^verbatim>\<open>i\<close> from 1.
  The buffers behind the pointer parameters are the fields of the state.
\<close>

definition cextrema ::
  "('a::ord) list \<Rightarrow> size_t \<Rightarrow> size_t \<Rightarrow> size_t \<Rightarrow> outputs \<Rightarrow> fault + outputs" where
  "cextrema data imax jmax min_max_length s =
     i_loop data imax jmax min_max_length 1 (s\<lparr>maxima_length := 0, minima_length := 0\<rparr>)"

subsection \<open>The vocabulary of the properties\<close>

text \<open>
  The grid seen as a matrix: with \<open>J\<close> columns, cell \<open>(a, b)\<close> of a row-major buffer is
  element \<open>a * J + b\<close>. A cell is interior when it is not on the outermost ring.
\<close>

definition grid_at :: "'a list \<Rightarrow> nat \<Rightarrow> nat \<Rightarrow> nat \<Rightarrow> 'a" where
  "grid_at xs J a b = xs ! (a * J + b)"

definition interior :: "nat \<Rightarrow> nat \<Rightarrow> nat \<Rightarrow> nat \<Rightarrow> bool" where
  "interior I J a b = (1 \<le> a \<and> a + 1 < I \<and> 1 \<le> b \<and> b + 1 < J)"

text \<open>No cell of the 3x3 block around \<open>(a, b)\<close> is strictly greater (strictly smaller).\<close>

definition no_greater :: "('a::ord) list \<Rightarrow> nat \<Rightarrow> nat \<Rightarrow> nat \<Rightarrow> bool" where
  "no_greater data J a b =
     (\<forall>p\<in>{a - 1..a + 1}. \<forall>q\<in>{b - 1..b + 1}. \<not> grid_at data J a b < grid_at data J p q)"

definition no_smaller :: "('a::ord) list \<Rightarrow> nat \<Rightarrow> nat \<Rightarrow> nat \<Rightarrow> bool" where
  "no_smaller data J a b =
     (\<forall>p\<in>{a - 1..a + 1}. \<forall>q\<in>{b - 1..b + 1}. \<not> grid_at data J p q < grid_at data J a b)"

text \<open>
  A grid the routine is meant for: at least 3 rows and 3 columns, a buffer of
  \<^verbatim>\<open>imax * jmax\<close> samples, and a number of samples that fits \<^verbatim>\<open>size_t\<close> (as the size of
  every C object does), so that \<^verbatim>\<open>i * jmax + j\<close> does not wrap.
\<close>

definition grid_wf :: "'a list \<Rightarrow> size_t \<Rightarrow> size_t \<Rightarrow> bool" where
  "grid_wf data imax jmax =
     (3 \<le> imax \<and> 3 \<le> jmax \<and> length data = unat imax * unat jmax \<and>
      unat imax * unat jmax < 2 ^ 64)"

subsection \<open>The invariant of the map\<close>

text \<open>
  When the scan stands at \<open>(i, j)\<close> it has dealt with the interior cells of the rows
  above \<open>i\<close> and with the cells of row \<open>i\<close> left of \<open>j\<close>.
\<close>

definition processed :: "nat \<Rightarrow> nat \<Rightarrow> nat \<Rightarrow> nat \<Rightarrow> nat \<Rightarrow> nat \<Rightarrow> bool" where
  "processed I J i j a b = (interior I J a b \<and> (a < i \<or> (a = i \<and> b < j)))"

text \<open>
  What the scan leaves in the map cell of an interior cell \<open>(a, b)\<close> that held \<open>v0\<close>:
  \<open>1\<close> at a maximum; at a minimum that is no maximum \<open>-1\<close> or the old value (the
  capacity test of the minima branch decides); the old value elsewhere.
\<close>

definition cell_rule :: "('a::ord) list \<Rightarrow> nat \<Rightarrow> nat \<Rightarrow> nat \<Rightarrow> real \<Rightarrow> real \<Rightarrow> bool" where
  "cell_rule data J a b v0 v =
     (if no_greater data J a b then v = 1
      else if no_smaller data J a b then v = - 1 \<or> v = v0
      else v = v0)"

definition map_inv ::
  "('a::ord) list \<Rightarrow> nat \<Rightarrow> nat \<Rightarrow> outputs \<Rightarrow> nat \<Rightarrow> nat \<Rightarrow> outputs \<Rightarrow> bool" where
  "map_inv data I J s0 i j s =
     (length (extrema s) = length (extrema s0) \<and>
      (\<forall>a b. b < J \<longrightarrow>
         (if processed I J i j a b
          then cell_rule data J a b (extrema s0 ! (a * J + b)) (extrema s ! (a * J + b))
          else extrema s ! (a * J + b) = extrema s0 ! (a * J + b))))"

subsection \<open>The invariant of the coordinate arrays\<close>

text \<open>
  The entries the scan has written so far, seen from the state \<open>s0\<close> in which the loops
  start: \<^verbatim>\<open>maxima_length\<close> is a non-negative \<^verbatim>\<open>int\<close> not above the capacity, and the maxima
  arrays are as in \<open>s0\<close> from index \<^verbatim>\<open>maxima_length\<close> on, so exactly the entries below it
  have been written; \<^verbatim>\<open>min_index\<close> has advanced from its value in \<open>s0\<close> by at most the
  capacity, and the minima arrays are as in \<open>s0\<close> outside the window between the two.
\<close>

definition within_capacity :: "size_t \<Rightarrow> outputs \<Rightarrow> outputs \<Rightarrow> bool" where
  "within_capacity cap s0 s =
     (unat (maxima_length s) < 2 ^ 31 \<and>
      unat (maxima_length s) \<le> unat cap \<and>
      length (maxima_x s) = length (maxima_x s0) \<and>
      length (maxima_y s) = length (maxima_y s0) \<and>
      (\<forall>k. unat (maxima_length s) \<le> k \<longrightarrow>
         maxima_x s ! k = maxima_x s0 ! k \<and> maxima_y s ! k = maxima_y s0 ! k) \<and>
      min_index s0 \<le> min_index s \<and>
      unat (min_index s) - unat (min_index s0) \<le> unat cap \<and>
      length (minima_x s) = length (minima_x s0) \<and>
      length (minima_y s) = length (minima_y s0) \<and>
      (\<forall>k. k < unat (min_index s0) \<or> unat (min_index s) \<le> k \<longrightarrow>
         minima_x s ! k = minima_x s0 ! k \<and> minima_y s ! k = minima_y s0 ! k))"

subsection \<open>Buffers of the declared sizes\<close>

text \<open>
  The map has \<^verbatim>\<open>imax * jmax\<close> cells and each coordinate array \<^verbatim>\<open>min_max_length\<close> entries.
\<close>

definition buffers_sized :: "size_t \<Rightarrow> size_t \<Rightarrow> size_t \<Rightarrow> outputs \<Rightarrow> bool" where
  "buffers_sized imax jmax cap s =
     (length (extrema s) = unat imax * unat jmax \<and>
      length (maxima_x s) = unat cap \<and> length (maxima_y s) = unat cap \<and>
      length (minima_x s) = unat cap \<and> length (minima_y s) = unat cap)"

subsection \<open>The extrema in the order of the scan\<close>

text \<open>
  The interior cells in the order in which the two outer loops visit them, row by row and
  left to right within a row; and the cells visited before the scan stands at \<open>(i, j)\<close>.
\<close>

definition interior_cells :: "nat \<Rightarrow> nat \<Rightarrow> (nat \<times> nat) list" where
  "interior_cells I J = List.product [1..<I - 1] [1..<J - 1]"

definition cells_before :: "nat \<Rightarrow> nat \<Rightarrow> nat \<Rightarrow> (nat \<times> nat) list" where
  "cells_before J i j = List.product [1..<i] [1..<J - 1] @ map (Pair i) [1..<j]"

text \<open>
  The two kinds as the routine tells them apart: a maximum has no strictly greater cell in
  its 3x3 block; a minimum has no strictly smaller one and is not a maximum (the minima
  branch is the \<^verbatim>\<open>else\<close> of the maxima branch). The maxima and the minima of the grid are
  listed in the order of the scan.
\<close>

definition is_maximum :: "('a::ord) list \<Rightarrow> nat \<Rightarrow> nat \<times> nat \<Rightarrow> bool" where
  "is_maximum data J c = no_greater data J (fst c) (snd c)"

definition is_minimum :: "('a::ord) list \<Rightarrow> nat \<Rightarrow> nat \<times> nat \<Rightarrow> bool" where
  "is_minimum data J c =
     (\<not> no_greater data J (fst c) (snd c) \<and> no_smaller data J (fst c) (snd c))"

definition maxima_cells :: "('a::ord) list \<Rightarrow> nat \<Rightarrow> nat \<Rightarrow> (nat \<times> nat) list" where
  "maxima_cells data I J = filter (is_maximum data J) (interior_cells I J)"

definition minima_cells :: "('a::ord) list \<Rightarrow> nat \<Rightarrow> nat \<Rightarrow> (nat \<times> nat) list" where
  "minima_cells data I J = filter (is_minimum data J) (interior_cells I J)"

text \<open>
  What the maxima arrays hold when the scan has dealt with the cells \<open>cs\<close>:
  \<^verbatim>\<open>maxima_length\<close> is a non-negative \<^verbatim>\<open>int\<close>, the smaller of the capacity and the number
  of maxima among \<open>cs\<close>, and entry \<open>n\<close> below it is the \<open>n\<close>-th maximum of \<open>cs\<close>.
\<close>

definition maxima_recorded ::
  "('a::ord) list \<Rightarrow> nat \<Rightarrow> size_t \<Rightarrow> (nat \<times> nat) list \<Rightarrow> outputs \<Rightarrow> bool" where
  "maxima_recorded data J cap cs s =
     (unat (maxima_length s) < 2 ^ 31 \<and>
      unat (maxima_length s) = min (unat cap) (length (filter (is_maximum data J) cs)) \<and>
      (\<forall>n < unat (maxima_length s).
          maxima_x s ! n = of_nat (fst (filter (is_maximum data J) cs ! n)) \<and>
          maxima_y s ! n = of_nat (snd (filter (is_maximum data J) cs ! n))))"

text \<open>
  The minima branch tests \<^verbatim>\<open>min_index\<close> against the capacity, and \<^verbatim>\<open>min_index\<close> starts
  where the state \<open>s0\<close> at entry has it: of \<open>n\<close> minima the branch takes the first
  \<open>room cap s0 n\<close>. When the scan has dealt with the cells \<open>cs\<close>, \<^verbatim>\<open>min_index\<close> has advanced
  by that number, the entries from its value at entry on are these minima in order, and
  the map cell of the \<open>n\<close>-th minimum of \<open>cs\<close> holds \<open>-1\<close> if the branch took it and is as
  in \<open>s0\<close> if not.
\<close>

definition room :: "size_t \<Rightarrow> outputs \<Rightarrow> nat \<Rightarrow> nat" where
  "room cap s0 n = min (unat cap - unat (min_index s0)) n"

definition minima_recorded ::
  "('a::ord) list \<Rightarrow> nat \<Rightarrow> size_t \<Rightarrow> outputs \<Rightarrow> (nat \<times> nat) list \<Rightarrow> outputs \<Rightarrow> bool" where
  "minima_recorded data J cap s0 cs s =
     (unat (min_index s) =
        unat (min_index s0) + room cap s0 (length (filter (is_minimum data J) cs)) \<and>
      (\<forall>n < room cap s0 (length (filter (is_minimum data J) cs)).
          minima_x s ! (unat (min_index s0) + n) = of_nat (fst (filter (is_minimum data J) cs ! n)) \<and>
          minima_y s ! (unat (min_index s0) + n) = of_nat (snd (filter (is_minimum data J) cs ! n))) \<and>
      (\<forall>n < length (filter (is_minimum data J) cs).
          grid_at (extrema s) J (fst (filter (is_minimum data J) cs ! n))
              (snd (filter (is_minimum data J) cs ! n)) =
            (if n < room cap s0 (length (filter (is_minimum data J) cs)) then - 1
             else grid_at (extrema s0) J (fst (filter (is_minimum data J) cs ! n))
                    (snd (filter (is_minimum data J) cs ! n)))))"

subsection \<open>Two runs in a row\<close>

text \<open>
  What a caller does to start afresh: it zeroes the map, the four coordinate arrays and
  the two counts it passes by reference. \<^verbatim>\<open>min_index\<close> is not among the parameters of the
  routine, so the caller does not pass it; it keeps its value from one call to the next.
\<close>

definition rezero :: "outputs \<Rightarrow> outputs" where
  "rezero s =
     s\<lparr>extrema := replicate (length (extrema s)) 0,
       maxima_x := replicate (length (maxima_x s)) 0,
       maxima_y := replicate (length (maxima_y s)) 0,
       minima_x := replicate (length (minima_x s)) 0,
       minima_y := replicate (length (minima_y s)) 0,
       maxima_length := 0, minima_length := 0\<rparr>"

definition run_twice ::
  "('a::ord) list \<Rightarrow> size_t \<Rightarrow> size_t \<Rightarrow> size_t \<Rightarrow> outputs \<Rightarrow> fault + outputs \<times> outputs" where
  "run_twice data imax jmax min_max_length s =
     (case cextrema data imax jmax min_max_length (rezero s) of
        Inl e \<Rightarrow> Inl e
      | Inr s1 \<Rightarrow>
     (case cextrema data imax jmax min_max_length (rezero s1) of
        Inl e \<Rightarrow> Inl e
      | Inr s2 \<Rightarrow> Inr (s1, s2)))"

subsection \<open>Sample inputs\<close>

text \<open>
  Four 3x3 grids: a pit (centre below its neighbours), a peak, a flat grid and a slope
  (the centre has a smaller and a greater neighbour); a grid of 3 rows and 4 columns
  whose two interior cells are both minima; and
  the output state a caller prepares, with a map of \<open>n\<close> zeros, coordinate arrays of
  \<open>c\<close> zeros, and all counters zero.
\<close>

definition pit :: "real list" where
  "pit = [1, 1, 1, 1, 0, 1, 1, 1, 1]"

definition peak :: "real list" where
  "peak = [0, 0, 0, 0, 1, 0, 0, 0, 0]"

definition flat :: "real list" where
  "flat = [0, 0, 0, 0, 0, 0, 0, 0, 0]"

definition slope :: "real list" where
  "slope = [0, 0, 0, 0, 1, 0, 0, 0, 2]"

definition two_pits :: "real list" where
  "two_pits = [1, 1, 1, 1, 1, 0, 0, 1, 1, 1, 1, 1]"

definition zeroed :: "nat \<Rightarrow> nat \<Rightarrow> outputs" where
  "zeroed n c =
     \<lparr>extrema = replicate n 0,
      maxima_x = replicate c 0, maxima_y = replicate c 0,
      minima_x = replicate c 0, minima_y = replicate c 0,
      maxima_length = 0, minima_length = 0, min_index = 0\<rparr>"

declare inner_j_loop.simps [simp del] inner_i_loop.simps [simp del]
  j_loop.simps [simp del] i_loop.simps [simp del]

section \<open>Word arithmetic of the indices\<close>

lemma unat_succ: "(x :: size_t) < y \<Longrightarrow> unat (x + 1) = Suc (unat x)"
  by unat_arith

lemma unat_pred: "(x :: size_t) \<noteq> 0 \<Longrightarrow> unat (x - 1) = unat x - 1"
  by (rule unat_minus_one)

lemma idx_le: "unat ((x :: size_t) * jmax + y) \<le> unat x * unat jmax + unat y"
proof -
  have "unat (x * jmax + y) = (unat (x * jmax) + unat y) mod 2 ^ 64"
    by (simp add: unat_word_ariths)
  also have "\<dots> \<le> unat (x * jmax) + unat y" by simp
  also have "unat (x * jmax) = (unat x * unat jmax) mod 2 ^ 64"
    by (simp add: unat_word_ariths)
  also have "\<dots> \<le> unat x * unat jmax" by simp
  finally show ?thesis by simp
qed

lemma idx_exact:
  assumes "unat (x :: size_t) * unat jmax + unat y < 2 ^ 64"
  shows "unat (x * jmax + y) = unat x * unat jmax + unat y"
proof -
  from assms have "unat x * unat jmax < 2 ^ LENGTH(64)" by simp
  then have m: "unat (x * jmax) = unat x * unat jmax"
    by (simp only: unat_mult_lem)
  with assms have "unat (x * jmax) + unat y < 2 ^ LENGTH(64)" by simp
  then have "unat (x * jmax + y) = unat (x * jmax) + unat y"
    by (simp only: unat_add_lem)
  with m show ?thesis by simp
qed

lemma unat_plus2: "unat (j :: size_t) + 2 < 2 ^ 64 \<Longrightarrow> unat (j + 2) = unat j + 2"
  using unat_add_lem [of j 2] by simp

lemma unat_plus1: "unat (j :: size_t) + 1 < 2 ^ 64 \<Longrightarrow> unat (j + 1) = unat j + 1"
  using unat_add_lem [of j 1] by simp

text \<open>
  A non-negative \<^verbatim>\<open>int\<close> counter: its value is its unsigned reading, converting it to
  \<^verbatim>\<open>size_t\<close> keeps it, and below \<^verbatim>\<open>INT_MAX\<close> the increment does not overflow.
\<close>

lemma sint_pos: "unat (n :: c_int) < 2 ^ 31 \<Longrightarrow> sint n = int (unat n)"
proof -
  assume a: "unat n < 2 ^ 31"
  have u: "uint n = int (unat n)" by simp
  from a have "int (unat n) < int (2 ^ 31)" by (simp only: of_nat_less_iff)
  then have "uint n < 2 ^ 31" unfolding u by simp
  moreover have "- (2 ^ 31) \<le> uint n"
  proof -
    have "- (2 ^ 31) \<le> (0 :: int)" by simp
    also have "0 \<le> uint n" by simp
    finally show ?thesis .
  qed
  ultimately have "signed_take_bit 31 (uint n) = uint n"
    by (intro signed_take_bit_int_eq_self) simp_all
  then show ?thesis by (simp add: sint_uint)
qed

lemma scast_pos: "unat (n :: c_int) < 2 ^ 31 \<Longrightarrow> unat (scast n :: size_t) = unat n"
proof -
  assume a: "unat n < 2 ^ 31"
  have "(scast n :: size_t) = word_of_int (int (unat n))"
    by (simp only: scast_eq sint_pos [OF a])
  then have "(scast n :: size_t) = of_nat (unat n)" by simp
  then have "unat (scast n :: size_t) = unat n mod 2 ^ 64"
    by (simp only: unat_of_nat) simp
  with a show ?thesis by simp
qed

lemma incr_pos:
  assumes "unat (n :: c_int) < 2 ^ 31" "n \<noteq> INT_MAX"
  shows "unat (n + 1) = Suc (unat n)" "unat (n + 1) < 2 ^ 31"
proof -
  from assms(2) have "unat n \<noteq> unat (0x7FFFFFFF :: c_int)"
    by (simp only: INT_MAX_def word_unat_eq_iff not_False_eq_True)
  then have ne: "unat n \<noteq> 2147483647" by simp
  from assms(1) have "unat n + unat (1 :: c_int) < 2 ^ LENGTH(32)" by simp
  then have "unat (n + 1) = unat n + unat (1 :: c_int)"
    by (simp only: unat_add_lem)
  then show e: "unat (n + 1) = Suc (unat n)" by simp
  from assms(1) ne show "unat (n + 1) < 2 ^ 31" unfolding e by simp
qed

lemma wr_int_pos:
  "unat (n :: c_int) < 2 ^ 31 \<Longrightarrow>
     wr_int xs n v = (if unat n < length xs then Inr (xs[unat n := v]) else Inl OutOfBounds)"
  by (simp add: wr_int_def sint_pos)

section \<open>Invariant rules for the two outer loops\<close>

text \<open>
  The rule of a \<^verbatim>\<open>for\<close> loop: an invariant \<open>P\<close> indexed by the counter that holds at the
  start and is kept by every iteration holds at the exit, where the counter is the
  larger of its start and the bound. \<open>E\<close> says which faults the iteration may raise:
  \<open>\<lambda>_. True\<close> for partial correctness, \<open>\<lambda>_. False\<close> when the loop must return.
\<close>

lemma j_loop_rule:
  assumes "P (unat j) s"
    and "\<And>j s. j < jmax - 1 \<Longrightarrow> P (unat j) s \<Longrightarrow>
       (case cell data jmax cap i j s of Inl e \<Rightarrow> E e | Inr s' \<Rightarrow> P (Suc (unat j)) s')"
  shows "case j_loop data jmax cap i j s of
           Inl e \<Rightarrow> E e | Inr s' \<Rightarrow> P (max (unat j) (unat (jmax - 1))) s'"
  using assms
proof (induction data jmax cap i j s rule: j_loop.induct)
  case (1 data jmax cap i j s)
  note inv = 1(2) and step = 1(3)
  show ?case
  proof (cases "j < jmax - 1")
    case False
    then have "max (unat j) (unat (jmax - 1)) = unat j"
      by (simp add: word_less_nat_alt)
    with False inv show ?thesis
      by (simp add: j_loop.simps [of data jmax cap i j s])
  next
    case True
    then have su: "unat (j + 1) = Suc (unat j)" by (rule unat_succ)
    from True have mx: "max (unat (j + 1)) (unat (jmax - 1)) = max (unat j) (unat (jmax - 1))"
      by (simp add: su word_less_nat_alt)
    show ?thesis
    proof (cases "cell data jmax cap i j s")
      case (Inl e)
      with step [OF True inv] True show ?thesis
        by (simp add: j_loop.simps [of data jmax cap i j s])
    next
      case (Inr s')
      with step [OF True inv] have "P (unat (j + 1)) s'" by (simp add: su)
      from 1(1) [OF True Inr this step, unfolded mx] True Inr show ?thesis
        by (simp add: j_loop.simps [of data jmax cap i j s])
    qed
  qed
qed

lemma i_loop_rule:
  assumes "Q (unat i) s"
    and "\<And>i s. i < imax - 1 \<Longrightarrow> Q (unat i) s \<Longrightarrow>
       (case j_loop data jmax cap i 1 s of Inl e \<Rightarrow> E e | Inr s' \<Rightarrow> Q (Suc (unat i)) s')"
  shows "case i_loop data imax jmax cap i s of
           Inl e \<Rightarrow> E e | Inr s' \<Rightarrow> Q (max (unat i) (unat (imax - 1))) s'"
  using assms
proof (induction data imax jmax cap i s rule: i_loop.induct)
  case (1 data imax jmax cap i s)
  note inv = 1(2) and step = 1(3)
  show ?case
  proof (cases "i < imax - 1")
    case False
    then have "max (unat i) (unat (imax - 1)) = unat i"
      by (simp add: word_less_nat_alt)
    with False inv show ?thesis
      by (simp add: i_loop.simps [of data imax jmax cap i s])
  next
    case True
    then have su: "unat (i + 1) = Suc (unat i)" by (rule unat_succ)
    from True have mx: "max (unat (i + 1)) (unat (imax - 1)) = max (unat i) (unat (imax - 1))"
      by (simp add: su word_less_nat_alt)
    show ?thesis
    proof (cases "j_loop data jmax cap i 1 s")
      case (Inl e)
      with step [OF True inv] True show ?thesis
        by (simp add: i_loop.simps [of data imax jmax cap i s])
    next
      case (Inr s')
      with step [OF True inv] have "Q (unat (i + 1)) s'" by (simp add: su)
      from 1(1) [OF True Inr this step, unfolded mx] True Inr show ?thesis
        by (simp add: i_loop.simps [of data imax jmax cap i s])
    qed
  qed
qed

section \<open>The neighbourhood scan\<close>

text \<open>
  Where \<^verbatim>\<open>j + 2\<close> does not wrap, the loop over \<^verbatim>\<open>inner_j\<close> runs exactly three times,
  over the columns \<^verbatim>\<open>j - 1\<close>, \<^verbatim>\<open>j\<close> and \<^verbatim>\<open>j + 1\<close>; likewise the loop over \<^verbatim>\<open>inner_i\<close>.
\<close>

lemma three_steps:
  assumes "(j :: size_t) \<noteq> 0" "unat j + 2 < 2 ^ 64"
  shows "j - 1 < j + 2" "j < j + 2" "j + 1 < j + 2" "\<not> j + 2 < j + 2"
proof -
  from assms(2) have p2: "unat (j + 2) = unat j + 2" by (rule unat_plus2)
  from assms(2) have p1: "unat (j + 1) = unat j + 1" by (intro unat_plus1) simp
  from assms(1) have m1: "unat (j - 1) = unat j - 1" by (rule unat_pred)
  show "j - 1 < j + 2" by (simp add: word_less_nat_alt p2 m1)
  show "j < j + 2" by (simp add: word_less_nat_alt p2)
  show "j + 1 < j + 2" by (simp add: word_less_nat_alt p2 p1)
  show "\<not> j + 2 < j + 2" by simp
qed

lemma inner_j_unrolled:
  assumes "j \<noteq> 0" "unat j + 2 < 2 ^ 64"
  shows "inner_j_loop data jmax v j ii (j - 1) (mx, mn) =
    (case rd data (ii * jmax + (j - 1)) of Inl e \<Rightarrow> Inl e | Inr v1 \<Rightarrow>
    (case rd data (ii * jmax + j) of Inl e \<Rightarrow> Inl e | Inr v2 \<Rightarrow>
    (case rd data (ii * jmax + (j + 1)) of Inl e \<Rightarrow> Inl e | Inr v3 \<Rightarrow>
       Inr (mx \<and> \<not> v < v1 \<and> \<not> v < v2 \<and> \<not> v < v3,
            mn \<and> \<not> v1 < v \<and> \<not> v2 < v \<and> \<not> v3 < v))))"
proof -
  note t = three_steps [OF assms]
  have e: "j - 1 + 1 = j" "j + 1 + 1 = j + 2" by simp_all
  have s4: "inner_j_loop data jmax v j ii (j + 2) f = Inr f" for f
    by (cases f) (simp add: inner_j_loop.simps [of data jmax v j ii "j + 2"])
  have s3: "inner_j_loop data jmax v j ii (j + 1) (a, b) =
      (case rd data (ii * jmax + (j + 1)) of Inl e \<Rightarrow> Inl e
       | Inr v3 \<Rightarrow> Inr (if v < v3 then False else a, if v3 < v then False else b))" for a b
    by (simp add: inner_j_loop.simps [of data jmax v j ii "j + 1"] t e s4 split: sum.splits)
  have s2: "inner_j_loop data jmax v j ii j (a, b) =
      (case rd data (ii * jmax + j) of Inl e \<Rightarrow> Inl e
       | Inr v2 \<Rightarrow> inner_j_loop data jmax v j ii (j + 1)
            (if v < v2 then False else a, if v2 < v then False else b))" for a b
    by (simp add: inner_j_loop.simps [of data jmax v j ii j] t)
  have s1: "inner_j_loop data jmax v j ii (j - 1) (a, b) =
      (case rd data (ii * jmax + (j - 1)) of Inl e \<Rightarrow> Inl e
       | Inr v1 \<Rightarrow> inner_j_loop data jmax v j ii j
            (if v < v1 then False else a, if v1 < v then False else b))" for a b
    by (simp add: inner_j_loop.simps [of data jmax v j ii "j - 1"] t e split: sum.splits)
  show ?thesis
    by (auto simp: s1 s2 s3 split: sum.splits)
qed

lemma inner_i_unrolled:
  assumes "i \<noteq> 0" "unat i + 2 < 2 ^ 64"
  shows "inner_i_loop data jmax v i j (i - 1) f =
    (case inner_j_loop data jmax v j (i - 1) (j - 1) f of Inl e \<Rightarrow> Inl e | Inr f1 \<Rightarrow>
    (case inner_j_loop data jmax v j i (j - 1) f1 of Inl e \<Rightarrow> Inl e | Inr f2 \<Rightarrow>
     inner_j_loop data jmax v j (i + 1) (j - 1) f2))"
proof -
  note t = three_steps [OF assms]
  have e: "i - 1 + 1 = i" "i + 1 + 1 = i + 2" by simp_all
  have s4: "inner_i_loop data jmax v i j (i + 2) g = Inr g" for g
    by (simp add: inner_i_loop.simps [of data jmax v i j "i + 2"])
  have s3: "inner_i_loop data jmax v i j (i + 1) g =
      (case inner_j_loop data jmax v j (i + 1) (j - 1) g of Inl e \<Rightarrow> Inl e
       | Inr g' \<Rightarrow> Inr g')" for g
    by (simp add: inner_i_loop.simps [of data jmax v i j "i + 1"] t e s4 split: sum.splits)
  have s2: "inner_i_loop data jmax v i j i g =
      (case inner_j_loop data jmax v j i (j - 1) g of Inl e \<Rightarrow> Inl e
       | Inr g' \<Rightarrow> inner_i_loop data jmax v i j (i + 1) g')" for g
    by (simp add: inner_i_loop.simps [of data jmax v i j i] t)
  have s1: "inner_i_loop data jmax v i j (i - 1) g =
      (case inner_j_loop data jmax v j (i - 1) (j - 1) g of Inl e \<Rightarrow> Inl e
       | Inr g' \<Rightarrow> inner_i_loop data jmax v i j i g')" for g
    by (simp add: inner_i_loop.simps [of data jmax v i j "i - 1"] t e split: sum.splits)
  show ?thesis
    by (auto simp: s1 s2 s3 split: sum.splits)
qed

lemma cell_index_less: "p < I \<Longrightarrow> q < J \<Longrightarrow> p * J + q < I * (J :: nat)"
proof -
  assume "p < I" "q < J"
  then have "p * J + q < Suc p * J" by simp
  also from \<open>p < I\<close> have "Suc p * J \<le> I * J"
    by (intro mult_le_mono1) simp
  finally show ?thesis .
qed

lemma rd_grid:
  assumes "grid_wf data imax jmax" "unat x < unat imax" "unat y < unat jmax"
  shows "rd data (x * jmax + y) = Inr (grid_at data (unat jmax) (unat x) (unat y))"
    and "unat (x * jmax + y) = unat x * unat jmax + unat y"
proof -
  from assms have lt: "unat x * unat jmax + unat y < unat imax * unat jmax"
    by (intro cell_index_less)
  with assms(1) have "unat x * unat jmax + unat y < 2 ^ 64"
    by (simp add: grid_wf_def)
  then show e: "unat (x * jmax + y) = unat x * unat jmax + unat y"
    by (rule idx_exact)
  with lt assms(1) show "rd data (x * jmax + y) = Inr (grid_at data (unat jmax) (unat x) (unat y))"
    by (simp add: rd_def grid_at_def grid_wf_def)
qed

lemma ball3:
  "1 \<le> (a :: nat) \<Longrightarrow> (\<forall>p\<in>{a - Suc 0..Suc a}. P p) = (P (a - Suc 0) \<and> P a \<and> P (Suc a))"
proof -
  assume "1 \<le> a"
  then have "{a - Suc 0..Suc a} = {a - Suc 0, a, Suc a}" by auto
  then show ?thesis by simp
qed

lemma interior_words:
  fixes i j imax jmax :: size_t
  assumes "interior (unat imax) (unat jmax) (unat i) (unat j)"
  shows "i \<noteq> 0" "j \<noteq> 0" "unat i + 2 < 2 ^ 64" "unat j + 2 < 2 ^ 64"
    "unat (i - 1) = unat i - 1" "unat (i + 1) = unat i + 1"
    "unat (j - 1) = unat j - 1" "unat (j + 1) = unat j + 1"
proof -
  from assms have a: "1 \<le> unat i" "unat i + 1 < unat imax" "1 \<le> unat j" "unat j + 1 < unat jmax"
    by (simp_all add: interior_def)
  have bi: "unat imax < 2 ^ 64" and bj: "unat jmax < 2 ^ 64"
    using unsigned_less [of imax] unsigned_less [of jmax] by simp_all
  from a show "i \<noteq> 0" "j \<noteq> 0" by auto
  from a bi show i2: "unat i + 2 < 2 ^ 64" by linarith
  from a bj show j2: "unat j + 2 < 2 ^ 64" by linarith
  from \<open>i \<noteq> 0\<close> show "unat (i - 1) = unat i - 1" by (rule unat_pred)
  from \<open>j \<noteq> 0\<close> show "unat (j - 1) = unat j - 1" by (rule unat_pred)
  from i2 show "unat (i + 1) = unat i + 1" by (intro unat_plus1) simp
  from j2 show "unat (j + 1) = unat j + 1" by (intro unat_plus1) simp
qed

lemma neighbourhood_interior:
  assumes wf: "grid_wf data imax jmax"
    and int: "interior (unat imax) (unat jmax) (unat i) (unat j)"
  shows "neighbourhood data jmax i j =
           Inr (no_greater data (unat jmax) (unat i) (unat j),
                no_smaller data (unat jmax) (unat i) (unat j))"
proof -
  note w = interior_words [OF int]
  from int have a: "1 \<le> unat i" "unat i + 1 < unat imax" "1 \<le> unat j" "unat j + 1 < unat jmax"
    by (simp_all add: interior_def)
  have ri: "unat (i - 1) < unat imax" "unat i < unat imax" "unat (i + 1) < unat imax"
    using a by (simp_all add: w)
  have rj: "unat (j - 1) < unat jmax" "unat j < unat jmax" "unat (j + 1) < unat jmax"
    using a by (simp_all add: w)
  note r = rd_grid(1) [OF wf]
  have "neighbourhood data jmax i j =
      Inr ((\<forall>x\<in>{i - 1, i, i + 1}. \<forall>y\<in>{j - 1, j, j + 1}.
              \<not> grid_at data (unat jmax) (unat i) (unat j)
                  < grid_at data (unat jmax) (unat x) (unat y)),
           (\<forall>x\<in>{i - 1, i, i + 1}. \<forall>y\<in>{j - 1, j, j + 1}.
              \<not> grid_at data (unat jmax) (unat x) (unat y)
                  < grid_at data (unat jmax) (unat i) (unat j)))"
    unfolding neighbourhood_def
    by (simp add: r ri rj inner_i_unrolled [OF w(1) w(3)] inner_j_unrolled [OF w(2) w(4)]
          conj_ac)
  then show ?thesis
    unfolding no_greater_def no_smaller_def
    by (simp add: ball3 [OF a(1)] ball3 [OF a(3)] w(5-8))
qed

section \<open>The map after the scan\<close>

text \<open>
  Each step of the scan writes at most the map cell of the interior cell it stands on,
  and what it writes follows \<open>cell_rule\<close>; distinct cells have distinct indices. So
  \<open>map_inv\<close> holds along the scan, and at its end every interior cell is processed.
\<close>

lemma cell_index_inj:
  assumes "b < J" "b' < J" "a * J + b = a' * J + (b' :: nat)"
  shows "a = a' \<and> b = b'"
proof -
  from assms(1) have "(a * J + b) div J = a" "(a * J + b) mod J = b" by simp_all
  moreover from assms(2) have "(a' * J + b') div J = a'" "(a' * J + b') mod J = b'" by simp_all
  ultimately show ?thesis using assms(3) by simp
qed

lemma classify_extrema:
  assumes "classify jmax cap i j mx mn s = Inr s'"
  shows "mx \<Longrightarrow> unat (i * jmax + j) < length (extrema s) \<and>
                extrema s' = (extrema s)[unat (i * jmax + j) := 1]"
    and "\<not> mx \<Longrightarrow> mn \<Longrightarrow> extrema s' = extrema s \<or>
           (unat (i * jmax + j) < length (extrema s) \<and>
            extrema s' = (extrema s)[unat (i * jmax + j) := - 1])"
    and "\<not> mx \<Longrightarrow> \<not> mn \<Longrightarrow> extrema s' = extrema s"
  using assms
  by (auto simp: classify_def wr_def wr_int_def incr_int_def split: if_splits sum.splits)

lemma dims_words:
  assumes "grid_wf data imax jmax"
  shows "3 \<le> unat imax" "3 \<le> unat jmax" "unat (imax - 1) = unat imax - 1"
    "unat (jmax - 1) = unat jmax - 1"
proof -
  from assms have "3 \<le> imax" "3 \<le> jmax" by (simp_all add: grid_wf_def)
  then show a: "3 \<le> unat imax" "3 \<le> unat jmax"
    by (simp_all add: word_le_nat_alt)
  from a have "imax \<noteq> 0" "jmax \<noteq> 0" by auto
  then show "unat (imax - 1) = unat imax - 1" "unat (jmax - 1) = unat jmax - 1"
    by (simp_all add: unat_pred)
qed

lemma processed_step:
  assumes "interior I J a b"
  shows "processed I J a (Suc b) a' b' \<longleftrightarrow> processed I J a b a' b' \<or> (a' = a \<and> b' = b)"
  using assms by (auto simp: processed_def)

lemma processed_row:
  "processed I J (Suc i) (Suc 0) a b \<longleftrightarrow> processed I J i (J - Suc 0) a b"
  by (auto simp: processed_def interior_def)

lemma processed_first: "\<not> processed I J (Suc 0) (Suc 0) a b"
  by (auto simp: processed_def interior_def)

lemma processed_last:
  "3 \<le> I \<Longrightarrow> processed I J (I - Suc 0) (Suc 0) a b \<longleftrightarrow> interior I J a b"
  by (auto simp: processed_def interior_def)

lemma map_inv_cell:
  assumes wf: "grid_wf data imax jmax"
    and int: "interior (unat imax) (unat jmax) (unat i) (unat j)"
    and inv: "map_inv data (unat imax) (unat jmax) s0 (unat i) (unat j) s"
    and c: "cell data jmax cap i j s = Inr s'"
  shows "map_inv data (unat imax) (unat jmax) s0 (unat i) (Suc (unat j)) s'"
proof -
  let ?J = "unat jmax" and ?a = "unat i" and ?b = "unat j"
  let ?n = "?a * ?J + ?b"
  from int have bJ: "?b < ?J" "?a < unat imax" by (simp_all add: interior_def)
  have n: "unat (i * jmax + j) = ?n"
    by (rule rd_grid(2) [OF wf bJ(2) bJ(1)])
  from c have cl: "classify jmax cap i j (no_greater data ?J ?a ?b) (no_smaller data ?J ?a ?b) s = Inr s'"
    by (simp add: cell_def neighbourhood_interior [OF wf int])
  note ce = classify_extrema [OF cl, unfolded n]
  from inv have len: "length (extrema s) = length (extrema s0)"
    and cells: "\<And>a b. b < ?J \<Longrightarrow>
         (if processed (unat imax) ?J ?a ?b a b
          then cell_rule data ?J a b (extrema s0 ! (a * ?J + b)) (extrema s ! (a * ?J + b))
          else extrema s ! (a * ?J + b) = extrema s0 ! (a * ?J + b))"
    by (simp_all add: map_inv_def)
  have notproc: "\<not> processed (unat imax) ?J ?a ?b ?a ?b"
    by (simp add: processed_def)
  from cells [OF bJ(1)] notproc have old: "extrema s ! ?n = extrema s0 ! ?n" by simp
  have len': "length (extrema s') = length (extrema s0)"
    using ce len by (cases "no_greater data ?J ?a ?b"; cases "no_smaller data ?J ?a ?b") auto
  have other: "extrema s' ! (a * ?J + b) = extrema s ! (a * ?J + b)"
    if "b < ?J" "\<not> (a = ?a \<and> b = ?b)" for a b
  proof -
    from that bJ(1) have "a * ?J + b \<noteq> ?n"
      using cell_index_inj [of b ?J ?b a ?a] by blast
    then show ?thesis
      using ce by (cases "no_greater data ?J ?a ?b"; cases "no_smaller data ?J ?a ?b") auto
  qed
  have here: "cell_rule data ?J ?a ?b (extrema s0 ! ?n) (extrema s' ! ?n)"
    using ce old unfolding cell_rule_def
    by (cases "no_greater data ?J ?a ?b"; cases "no_smaller data ?J ?a ?b") auto
  show ?thesis
    unfolding map_inv_def
  proof (intro conjI allI impI)
    show "length (extrema s') = length (extrema s0)" by (rule len')
  next
    fix a b assume b: "b < ?J"
    show "if processed (unat imax) ?J ?a (Suc ?b) a b
          then cell_rule data ?J a b (extrema s0 ! (a * ?J + b)) (extrema s' ! (a * ?J + b))
          else extrema s' ! (a * ?J + b) = extrema s0 ! (a * ?J + b)"
    proof (cases "a = ?a \<and> b = ?b")
      case True
      with here int show ?thesis by (simp add: processed_step)
    next
      case False
      from other [OF b False] cells [OF b, of a] int False show ?thesis
        by (auto simp: processed_step)
    qed
  qed
qed

lemma map_inv_row:
  assumes wf: "grid_wf data imax jmax"
    and i: "1 \<le> unat i" "i < imax - 1"
    and inv: "map_inv data (unat imax) (unat jmax) s0 (unat i) 1 s"
  shows "case j_loop data jmax cap i 1 s of
           Inl e \<Rightarrow> True
         | Inr s' \<Rightarrow> map_inv data (unat imax) (unat jmax) s0 (Suc (unat i)) 1 s'"
proof -
  note d = dims_words [OF wf]
  from i(2) d have iI: "unat i + 1 < unat imax"
    by (simp add: word_less_nat_alt)
  let ?P = "\<lambda>j s. 1 \<le> j \<and> map_inv data (unat imax) (unat jmax) s0 (unat i) j s"
  have "case j_loop data jmax cap i 1 s of
          Inl e \<Rightarrow> True | Inr s' \<Rightarrow> ?P (max (unat (1 :: size_t)) (unat (jmax - 1))) s'"
  proof (rule j_loop_rule [where P = ?P and E = "\<lambda>_. True"])
    from inv show "?P (unat (1 :: size_t)) s" by simp
  next
    fix j s assume j: "j < jmax - 1" and p: "?P (unat j) s"
    from j d have "unat j + 1 < unat jmax" by (simp add: word_less_nat_alt)
    with p i(1) iI have int: "interior (unat imax) (unat jmax) (unat i) (unat j)"
      by (simp add: interior_def)
    show "case cell data jmax cap i j s of Inl e \<Rightarrow> True | Inr s' \<Rightarrow> ?P (Suc (unat j)) s'"
      using map_inv_cell [OF wf int] p by (auto split: sum.splits)
  qed
  moreover from d have "max (unat (1 :: size_t)) (unat (jmax - 1)) = unat jmax - 1" by simp
  ultimately show ?thesis
    by (simp add: map_inv_def processed_row split: sum.splits)
qed

lemma map_inv_scan:
  assumes wf: "grid_wf data imax jmax"
    and run: "cextrema data imax jmax cap s = Inr s'"
  shows "length (extrema s') = length (extrema s)"
    and "b < unat jmax \<Longrightarrow>
         (if interior (unat imax) (unat jmax) a b
          then cell_rule data (unat jmax) a b (extrema s ! (a * unat jmax + b))
                 (extrema s' ! (a * unat jmax + b))
          else extrema s' ! (a * unat jmax + b) = extrema s ! (a * unat jmax + b))"
proof -
  note d = dims_words [OF wf]
  let ?s = "s\<lparr>maxima_length := 0, minima_length := 0\<rparr>"
  let ?Q = "\<lambda>i t. 1 \<le> i \<and> map_inv data (unat imax) (unat jmax) s i 1 t"
  have "case i_loop data imax jmax cap 1 ?s of
          Inl e \<Rightarrow> True | Inr s' \<Rightarrow> ?Q (max (unat (1 :: size_t)) (unat (imax - 1))) s'"
  proof (rule i_loop_rule [where Q = ?Q and E = "\<lambda>_. True"])
    show "?Q (unat (1 :: size_t)) ?s"
      by (simp add: map_inv_def processed_first)
  next
    fix i t assume i: "i < imax - 1" and q: "?Q (unat i) t"
    then show "case j_loop data jmax cap i 1 t of Inl e \<Rightarrow> True | Inr s' \<Rightarrow> ?Q (Suc (unat i)) s'"
      using map_inv_row [OF wf _ i, of s t cap] by (auto split: sum.splits)
  qed
  moreover from d have "max (unat (1 :: size_t)) (unat (imax - 1)) = unat imax - 1" by simp
  ultimately have fin: "map_inv data (unat imax) (unat jmax) s (unat imax - 1) 1 s'"
    using run by (simp add: cextrema_def)
  then show "length (extrema s') = length (extrema s)"
    by (simp add: map_inv_def)
  assume "b < unat jmax"
  with fin d(1) show "if interior (unat imax) (unat jmax) a b
          then cell_rule data (unat jmax) a b (extrema s ! (a * unat jmax + b))
                 (extrema s' ! (a * unat jmax + b))
          else extrema s' ! (a * unat jmax + b) = extrema s ! (a * unat jmax + b)"
    by (simp add: map_inv_def processed_last)
qed

section \<open>Grids without interior\<close>

text \<open>
  With one or two rows the loop over \<^verbatim>\<open>i\<close> does not start; with one or two columns the
  loop over \<^verbatim>\<open>j\<close> never does, however many rows the loop over \<^verbatim>\<open>i\<close> walks.
\<close>

lemma few_rows:
  assumes "imax = 1 \<or> imax = 2"
  shows "i_loop data imax jmax cap 1 s = Inr s"
  using assms by (auto simp: i_loop.simps [of data imax jmax cap 1 s])

lemma few_columns:
  assumes "jmax = 1 \<or> jmax = 2"
  shows "i_loop data imax jmax cap i s = Inr s"
proof -
  have row: "j_loop data jmax cap i' 1 t = Inr t" for i' t
    using assms by (auto simp: j_loop.simps [of data jmax cap i' 1 t])
  have "case i_loop data imax jmax cap i s of
          Inl e \<Rightarrow> False | Inr s' \<Rightarrow> s' = s"
    by (rule i_loop_rule [where Q = "\<lambda>_ t. t = s" and E = "\<lambda>_. False"]) (simp_all add: row)
  then show ?thesis by (simp split: sum.splits)
qed

lemma small_grid:
  assumes "imax = 1 \<or> imax = 2 \<or> jmax = 1 \<or> jmax = 2"
  shows "cextrema data imax jmax cap s = Inr (s\<lparr>maxima_length := 0, minima_length := 0\<rparr>)"
  using assms few_rows [of imax data jmax cap] few_columns [of jmax data imax cap 1]
  by (auto simp: cextrema_def)

section \<open>The coordinate arrays stay within the capacity\<close>

lemma within_capacity_classify:
  assumes inv: "within_capacity cap s0 s"
    and c: "classify jmax cap i j mx mn s = Inr s'"
  shows "within_capacity cap s0 s'"
proof -
  from inv have ml: "unat (maxima_length s) < 2 ^ 31"
    by (simp add: within_capacity_def)
  note sc = scast_pos [OF ml] and w = wr_int_pos [OF ml]
  show ?thesis
  proof (cases mx)
    case True
    show ?thesis
    proof (cases "scast (maxima_length s) < cap")
      case False
      with True c inv show ?thesis
        by (auto simp: classify_def wr_def within_capacity_def split: if_splits sum.splits)
    next
      case g: True
      then have lt: "unat (maxima_length s) < unat cap"
        by (simp add: word_less_nat_alt sc)
      from True g c have ne: "maxima_length s \<noteq> INT_MAX"
        by (auto simp: classify_def incr_int_def split: if_splits sum.splits)
      note ip = incr_pos [OF ml ne]
      from True g c inv lt ip show ?thesis
        by (auto simp: classify_def wr_def w incr_int_def within_capacity_def
              split: if_splits sum.splits)
    qed
  next
    case nmx: False
    show ?thesis
    proof (cases "mn \<and> min_index s < cap")
      case False
      with nmx c inv show ?thesis
        by (auto simp: classify_def split: if_splits)
    next
      case True
      then have lt: "unat (min_index s) < unat cap"
        by (simp add: word_less_nat_alt)
      from True have su: "unat (min_index s + 1) = Suc (unat (min_index s))"
        by (intro unat_succ [of _ cap]) simp
      from inv have le: "unat (min_index s0) \<le> unat (min_index s)"
        by (simp add: within_capacity_def word_le_nat_alt)
      from nmx True c inv lt su le show ?thesis
        by (auto simp: classify_def wr_def within_capacity_def word_le_nat_alt
              split: if_splits sum.splits)
    qed
  qed
qed

lemma within_capacity_cell:
  assumes "within_capacity cap s0 s" "cell data jmax cap i j s = Inr s'"
  shows "within_capacity cap s0 s'"
  using assms within_capacity_classify [of cap s0 s jmax i j _ _ s']
  by (auto simp: cell_def split: sum.splits prod.splits)

lemma within_capacity_i_loop:
  assumes "within_capacity cap s0 s"
  shows "case i_loop data imax jmax cap i s of
           Inl e \<Rightarrow> True | Inr s' \<Rightarrow> within_capacity cap s0 s'"
proof (rule i_loop_rule [where Q = "\<lambda>_. within_capacity cap s0" and E = "\<lambda>_. True"])
  show "within_capacity cap s0 s" by (rule assms)
next
  fix i t assume t: "within_capacity cap s0 t"
  show "case j_loop data jmax cap i 1 t of
          Inl e \<Rightarrow> True | Inr s' \<Rightarrow> within_capacity cap s0 s'"
  proof (rule j_loop_rule [where P = "\<lambda>_. within_capacity cap s0" and E = "\<lambda>_. True"])
    show "within_capacity cap s0 t" by (rule t)
  next
    fix j u assume "within_capacity cap s0 u"
    then show "case cell data jmax cap i j u of
                 Inl e \<Rightarrow> True | Inr s' \<Rightarrow> within_capacity cap s0 s'"
      using within_capacity_cell [of cap s0 u data jmax i j] by (auto split: sum.splits)
  qed
qed

lemma within_capacity_start: "within_capacity cap (s\<lparr>maxima_length := 0, minima_length := 0\<rparr>)
    (s\<lparr>maxima_length := 0, minima_length := 0\<rparr>)"
  by (simp add: within_capacity_def)

section \<open>Memory safety\<close>

text \<open>
  With at least 3 rows and 3 columns and buffers of the declared sizes, the indices of
  every step stay inside the buffers: \<^verbatim>\<open>i * jmax + j\<close> is below \<^verbatim>\<open>imax * jmax\<close> even when
  the product wraps, a write to the maxima arrays is guarded by
  \<^verbatim>\<open>maxima_length < min_max_length\<close> with \<^verbatim>\<open>maxima_length\<close> non-negative, and a write to the
  minima arrays by \<^verbatim>\<open>min_index < min_max_length\<close>. The only fault left is the overflow of
  \<^verbatim>\<open>maxima_length\<close>, which needs a capacity of at least \<open>2^31\<close>.
\<close>

lemma index_in_bounds:
  fixes x y imax jmax :: size_t
  assumes "unat x < unat imax" "unat y < unat jmax"
  shows "unat (x * jmax + y) < unat imax * unat jmax"
proof -
  have "unat (x * jmax + y) \<le> unat x * unat jmax + unat y" by (rule idx_le)
  also from assms have "\<dots> < unat imax * unat jmax" by (rule cell_index_less)
  finally show ?thesis .
qed

lemma neighbourhood_returns:
  fixes imax :: size_t
  assumes len: "length data = unat imax * unat jmax"
    and int: "interior (unat imax) (unat jmax) (unat i) (unat j)"
  shows "\<exists>f. neighbourhood data jmax i j = Inr f"
proof -
  note w = interior_words [OF int]
  from int have a: "1 \<le> unat i" "unat i + 1 < unat imax" "1 \<le> unat j" "unat j + 1 < unat jmax"
    by (simp_all add: interior_def)
  have ri: "unat (i - 1) < unat imax" "unat i < unat imax" "unat (i + 1) < unat imax"
    using a by (simp_all add: w)
  have rj: "unat (j - 1) < unat jmax" "unat j < unat jmax" "unat (j + 1) < unat jmax"
    using a by (simp_all add: w)
  have r: "rd data (x * jmax + y) = Inr (data ! unat (x * jmax + y))"
    if "unat x < unat imax" "unat y < unat jmax" for x y
    using index_in_bounds [OF that] by (simp add: rd_def len)
  show ?thesis
    unfolding neighbourhood_def
    by (simp add: r ri rj inner_i_unrolled [OF w(1) w(3)] inner_j_unrolled [OF w(2) w(4)])
qed

lemma classify_safe:
  fixes imax :: size_t
  assumes b: "buffers_sized imax jmax cap s"
    and ml: "unat (maxima_length s) < 2 ^ 31"
    and k: "unat (i * jmax + j) < unat imax * unat jmax"
  shows "case classify jmax cap i j mx mn s of
           Inl e \<Rightarrow> e = SignedOverflow \<and> 2 ^ 31 \<le> unat cap
         | Inr s' \<Rightarrow> buffers_sized imax jmax cap s' \<and> unat (maxima_length s') < 2 ^ 31"
proof -
  note sc = scast_pos [OF ml] and w = wr_int_pos [OF ml]
  show ?thesis
  proof (cases mx)
    case True
    show ?thesis
    proof (cases "scast (maxima_length s) < cap")
      case False
      with True b ml k show ?thesis
        by (simp add: classify_def wr_def buffers_sized_def)
    next
      case g: True
      then have lt: "unat (maxima_length s) < unat cap"
        by (simp add: word_less_nat_alt sc)
      show ?thesis
      proof (cases "maxima_length s = INT_MAX")
        case True
        then have "unat (maxima_length s) = 2147483647" by (simp add: INT_MAX_def)
        with lt have "2 ^ 31 \<le> unat cap" by simp
        moreover from True have "incr_int (maxima_length s) = Inl SignedOverflow"
          by (simp add: incr_int_def)
        ultimately show ?thesis
          using \<open>mx\<close> g b k lt
          by (simp add: classify_def wr_def w buffers_sized_def)
      next
        case False
        note ip = incr_pos [OF ml False]
        from \<open>mx\<close> g False b k lt ip show ?thesis
          by (simp add: classify_def wr_def w incr_int_def buffers_sized_def)
      qed
    qed
  next
    case nmx: False
    show ?thesis
    proof (cases "mn \<and> min_index s < cap")
      case False
      with nmx b ml show ?thesis
        by (auto simp: classify_def)
    next
      case True
      then have lt: "unat (min_index s) < unat cap"
        by (simp add: word_less_nat_alt)
      from nmx True b ml k lt show ?thesis
        by (simp add: classify_def wr_def buffers_sized_def)
    qed
  qed
qed

lemma cell_safe:
  fixes imax :: size_t
  assumes len: "length data = unat imax * unat jmax"
    and int: "interior (unat imax) (unat jmax) (unat i) (unat j)"
    and b: "buffers_sized imax jmax cap s"
    and ml: "unat (maxima_length s) < 2 ^ 31"
  shows "case cell data jmax cap i j s of
           Inl e \<Rightarrow> e = SignedOverflow \<and> 2 ^ 31 \<le> unat cap
         | Inr s' \<Rightarrow> buffers_sized imax jmax cap s' \<and> unat (maxima_length s') < 2 ^ 31"
proof -
  from neighbourhood_returns [OF len int] obtain mx mn
    where n: "neighbourhood data jmax i j = Inr (mx, mn)" by force
  from int have "unat i < unat imax" "unat j < unat jmax" by (simp_all add: interior_def)
  then have "unat (i * jmax + j) < unat imax * unat jmax" by (rule index_in_bounds)
  from classify_safe [OF b ml this] n show ?thesis
    by (simp add: cell_def)
qed

lemma scan_safe:
  assumes dims: "3 \<le> imax" "3 \<le> jmax"
    and len: "length data = unat imax * unat jmax"
    and b: "buffers_sized imax jmax cap s"
  shows "case cextrema data imax jmax cap s of
           Inl e \<Rightarrow> e = SignedOverflow \<and> 2 ^ 31 \<le> unat cap
         | Inr s' \<Rightarrow> buffers_sized imax jmax cap s'"
proof -
  let ?E = "\<lambda>e. e = SignedOverflow \<and> 2 ^ 31 \<le> unat cap"
  let ?inv = "\<lambda>t. buffers_sized imax jmax cap t \<and> unat (maxima_length t) < 2 ^ 31"
  from dims have d: "3 \<le> unat imax" "3 \<le> unat jmax"
    by (simp_all add: word_le_nat_alt)
  then have "imax \<noteq> 0" "jmax \<noteq> 0" by auto
  then have p: "unat (imax - 1) = unat imax - 1" "unat (jmax - 1) = unat jmax - 1"
    by (simp_all add: unat_pred)
  let ?s = "s\<lparr>maxima_length := 0, minima_length := 0\<rparr>"
  have "case i_loop data imax jmax cap 1 ?s of
          Inl e \<Rightarrow> ?E e
        | Inr s' \<Rightarrow> 1 \<le> max (unat (1 :: size_t)) (unat (imax - 1)) \<and> ?inv s'"
  proof (rule i_loop_rule [where Q = "\<lambda>i t. 1 \<le> i \<and> ?inv t" and E = ?E])
    from b show "1 \<le> unat (1 :: size_t) \<and> ?inv ?s"
      by (simp add: buffers_sized_def)
  next
    fix i t assume i: "i < imax - 1" and q: "1 \<le> unat i \<and> ?inv t"
    from i p have iI: "unat i + 1 < unat imax" by (simp add: word_less_nat_alt)
    have "case j_loop data jmax cap i 1 t of
            Inl e \<Rightarrow> ?E e
          | Inr s' \<Rightarrow> 1 \<le> max (unat (1 :: size_t)) (unat (jmax - 1)) \<and> ?inv s'"
    proof (rule j_loop_rule [where P = "\<lambda>j t. 1 \<le> j \<and> ?inv t" and E = ?E])
      from q show "1 \<le> unat (1 :: size_t) \<and> ?inv t" by simp
    next
      fix j u assume j: "j < jmax - 1" and pj: "1 \<le> unat j \<and> ?inv u"
      from j p have "unat j + 1 < unat jmax" by (simp add: word_less_nat_alt)
      with pj q iI have int: "interior (unat imax) (unat jmax) (unat i) (unat j)"
        by (simp add: interior_def)
      from pj cell_safe [OF len int, of cap u]
      show "case cell data jmax cap i j u of
              Inl e \<Rightarrow> ?E e | Inr s' \<Rightarrow> 1 \<le> Suc (unat j) \<and> ?inv s'"
        by (auto split: sum.splits)
    qed
    then show "case j_loop data jmax cap i 1 t of
            Inl e \<Rightarrow> ?E e | Inr s' \<Rightarrow> 1 \<le> Suc (unat i) \<and> ?inv s'"
      by (auto split: sum.splits)
  qed
  then show ?thesis
    by (auto simp: cextrema_def split: sum.splits)
qed

section \<open>The flat grid\<close>

text \<open>
  On a flat grid every interior cell passes the test \<^verbatim>\<open>is_max\<close>, so the minima branch is
  never entered and \<^verbatim>\<open>maxima_length\<close> counts the cells dealt with, up to the capacity:
  \<open>(i - 1) * (J - 2) + (j - 1)\<close> of them when the scan stands at \<open>(i, j)\<close>.
\<close>

lemma no_greater_flat:
  assumes wf: "grid_wf data imax jmax"
    and int: "interior (unat imax) (unat jmax) a b"
    and flat: "\<forall>k < length data. data ! k = v"
    and irr: "\<not> v < v"
  shows "no_greater data (unat jmax) a b"
proof -
  from wf have len: "length data = unat imax * unat jmax" by (simp add: grid_wf_def)
  have "grid_at data (unat jmax) p q = v" if "p < unat imax" "q < unat jmax" for p q
    using cell_index_less [OF that] flat len by (simp add: grid_at_def)
  moreover from int have "p < unat imax" if "p \<in> {a - 1..a + 1}" for p
    using that by (auto simp: interior_def)
  moreover from int have "q < unat jmax" if "q \<in> {b - 1..b + 1}" for q
    using that by (auto simp: interior_def)
  ultimately show ?thesis
    using irr unfolding no_greater_def by (auto simp: interior_def)
qed

lemma count_step:
  assumes "interior I J a b"
  shows "Suc ((a - 1) * (J - 2) + (b - 1)) \<le> (I - 2) * (J - 2)"
proof -
  from assms have a: "1 \<le> a" "a + 2 \<le> I" "1 \<le> b" "b + 2 \<le> J" by (simp_all add: interior_def)
  then have "Suc ((a - 1) * (J - 2) + (b - 1)) \<le> (a - 1) * (J - 2) + (J - 2)" by simp
  also have "\<dots> = a * (J - 2)" using a(1) by (cases a) simp_all
  also have "\<dots> \<le> (I - 2) * (J - 2)" using a(2) by (intro mult_le_mono1) simp
  finally show ?thesis .
qed

lemma classify_max_count:
  fixes imax :: size_t
  assumes b: "buffers_sized imax jmax cap s"
    and ml: "unat (maxima_length s) = min (unat cap) n"
    and fits: "min (unat cap) (Suc n) < 2 ^ 31"
    and k: "unat (i * jmax + j) < unat imax * unat jmax"
  shows "\<exists>s'. classify jmax cap i j True mn s = Inr s' \<and>
           buffers_sized imax jmax cap s' \<and>
           unat (maxima_length s') = min (unat cap) (Suc n) \<and>
           minima_x s' = minima_x s \<and> minima_y s' = minima_y s \<and>
           min_index s' = min_index s"
proof -
  from ml fits have ml31: "unat (maxima_length s) < 2 ^ 31" by (simp add: min_def split: if_splits)
  note sc = scast_pos [OF ml31] and w = wr_int_pos [OF ml31]
  show ?thesis
  proof (cases "scast (maxima_length s) < cap")
    case False
    then have "unat cap \<le> unat (maxima_length s)"
      by (simp add: word_less_nat_alt sc)
    with ml have "unat (maxima_length s) = min (unat cap) (Suc n)" by (simp add: min_def split: if_splits)
    with False b k show ?thesis
      by (simp add: classify_def wr_def buffers_sized_def)
  next
    case True
    then have lt: "unat (maxima_length s) < unat cap"
      by (simp add: word_less_nat_alt sc)
    with ml have eq: "unat (maxima_length s) = n" by (simp add: min_def split: if_splits)
    with lt fits have "Suc n < 2 ^ 31" by (simp add: min_def split: if_splits)
    with eq have ne: "maxima_length s \<noteq> INT_MAX" by (auto simp: INT_MAX_def)
    note ip = incr_pos [OF ml31 ne]
    from lt eq have "unat (maxima_length s + 1) = min (unat cap) (Suc n)"
      by (simp add: ip(1))
    with True b k lt ne show ?thesis
      by (simp add: classify_def wr_def w incr_int_def buffers_sized_def)
  qed
qed

lemma flat_scan:
  assumes wf: "grid_wf data imax jmax"
    and flat: "\<forall>k < length data. data ! k = v"
    and irr: "\<not> v < v"
    and b: "buffers_sized imax jmax cap s"
    and fits: "min (unat cap) ((unat imax - 2) * (unat jmax - 2)) < 2 ^ 31"
  shows "\<exists>s'. cextrema data imax jmax cap s = Inr s' \<and>
           buffers_sized imax jmax cap s' \<and>
           unat (maxima_length s') = min (unat cap) ((unat imax - 2) * (unat jmax - 2)) \<and>
           minima_x s' = minima_x s \<and> minima_y s' = minima_y s \<and>
           min_index s' = min_index s"
proof -
  let ?I = "unat imax" and ?J = "unat jmax"
  let ?K = "\<lambda>i j t. 1 \<le> j \<and> buffers_sized imax jmax cap t \<and>
      unat (maxima_length t) = min (unat cap) ((i - 1) * (?J - 2) + (j - 1)) \<and>
      minima_x t = minima_x s \<and> minima_y t = minima_y s \<and> min_index t = min_index s"
  note d = dims_words [OF wf]
  let ?s = "s\<lparr>maxima_length := 0, minima_length := 0\<rparr>"
  have "case i_loop data imax jmax cap 1 ?s of
          Inl e \<Rightarrow> False
        | Inr s' \<Rightarrow> 1 \<le> max (unat (1 :: size_t)) (unat (imax - 1)) \<and>
                    ?K (max (unat (1 :: size_t)) (unat (imax - 1))) 1 s'"
  proof (rule i_loop_rule [where Q = "\<lambda>i t. 1 \<le> i \<and> ?K i 1 t" and E = "\<lambda>_. False"])
    from b show "1 \<le> unat (1 :: size_t) \<and> ?K (unat (1 :: size_t)) 1 ?s"
      by (simp add: buffers_sized_def)
  next
    fix i t assume i: "i < imax - 1" and q: "1 \<le> unat i \<and> ?K (unat i) 1 t"
    from i d have iI: "unat i + 1 < ?I" by (simp add: word_less_nat_alt)
    have "case j_loop data jmax cap i 1 t of
            Inl e \<Rightarrow> False
          | Inr s' \<Rightarrow> ?K (unat i) (max (unat (1 :: size_t)) (unat (jmax - 1))) s'"
    proof (rule j_loop_rule [where P = "?K (unat i)" and E = "\<lambda>_. False"])
      from q show "?K (unat i) (unat (1 :: size_t)) t" by simp
    next
      fix j u assume j: "j < jmax - 1" and pj: "?K (unat i) (unat j) u"
      from j d have "unat j + 1 < ?J" by (simp add: word_less_nat_alt)
      with pj q iI have int: "interior ?I ?J (unat i) (unat j)"
        by (simp add: interior_def)
      have ng: "no_greater data ?J (unat i) (unat j)"
        by (rule no_greater_flat [OF wf int flat irr])
      from int have "unat i < ?I" "unat j < ?J" by (simp_all add: interior_def)
      then have k: "unat (i * jmax + j) < ?I * ?J" by (rule index_in_bounds)
      from count_step [OF int] fits
      have f: "min (unat cap) (Suc ((unat i - 1) * (?J - 2) + (unat j - 1))) < 2 ^ 31"
        by (simp add: min_def split: if_splits)
      from pj have b': "buffers_sized imax jmax cap u"
        and ml: "unat (maxima_length u) = min (unat cap) ((unat i - 1) * (?J - 2) + (unat j - 1))"
        by simp_all
      from classify_max_count [OF b' ml f k, of "no_smaller data ?J (unat i) (unat j)"]
      obtain u' where "classify jmax cap i j True (no_smaller data ?J (unat i) (unat j)) u = Inr u'"
        and "buffers_sized imax jmax cap u'"
        and "unat (maxima_length u') = min (unat cap) (Suc ((unat i - 1) * (?J - 2) + (unat j - 1)))"
        and "minima_x u' = minima_x u" "minima_y u' = minima_y u" "min_index u' = min_index u"
        by blast
      moreover from pj have "Suc (unat j - 1) = unat j" by simp
      ultimately show "case cell data jmax cap i j u of
              Inl e \<Rightarrow> False | Inr s' \<Rightarrow> ?K (unat i) (Suc (unat j)) s'"
        using pj ng by (simp add: cell_def neighbourhood_interior [OF wf int])
    qed
    moreover from d have "max (unat (1 :: size_t)) (unat (jmax - 1)) = ?J - 1" by simp
    moreover from q have "(unat i - 1) * (?J - 2) + (?J - 1 - 1) = unat i * (?J - 2)"
      by (cases "unat i") simp_all
    ultimately show "case j_loop data jmax cap i 1 t of
            Inl e \<Rightarrow> False | Inr s' \<Rightarrow> 1 \<le> Suc (unat i) \<and> ?K (Suc (unat i)) 1 s'"
      by (auto split: sum.splits)
  qed
  moreover from d have "max (unat (1 :: size_t)) (unat (imax - 1)) = ?I - 1" by simp
  moreover have "?I - 1 - 1 = ?I - 2" by simp
  ultimately show ?thesis
    by (auto simp: cextrema_def split: sum.splits)
qed

section \<open>The coordinate arrays and the map\<close>

text \<open>
  A step of the scan on one cell does one of four things: it marks a maximum and records
  it, it marks a maximum without recording it (the maxima arrays are full), it marks and
  records a minimum, or it leaves the state alone. The two invariants of the arrays are
  kept in each case, given that the cell is new and that its map cell is not the map cell
  of a cell dealt with before.
\<close>

lemma classify_cases:
  assumes c: "classify jmax cap i j mx mn s = Inr s'"
    and ml: "unat (maxima_length s) < 2 ^ 31"
  obtains
    (max_rec) "mx" "unat (maxima_length s) < unat cap"
      "unat (maxima_length s) < length (maxima_x s)"
      "unat (maxima_length s) < length (maxima_y s)"
      "unat (i * jmax + j) < length (extrema s)"
      "unat (maxima_length s + 1) = Suc (unat (maxima_length s))"
      "unat (maxima_length s + 1) < 2 ^ 31"
      "s' = s\<lparr>extrema := (extrema s)[unat (i * jmax + j) := 1],
              maxima_x := (maxima_x s)[unat (maxima_length s) := ucast i],
              maxima_y := (maxima_y s)[unat (maxima_length s) := ucast j],
              maxima_length := maxima_length s + 1\<rparr>"
  | (max_full) "mx" "unat cap \<le> unat (maxima_length s)"
      "unat (i * jmax + j) < length (extrema s)"
      "s' = s\<lparr>extrema := (extrema s)[unat (i * jmax + j) := 1]\<rparr>"
  | (min_rec) "\<not> mx" "mn" "unat (min_index s) < unat cap"
      "unat (min_index s) < length (minima_x s)"
      "unat (min_index s) < length (minima_y s)"
      "unat (i * jmax + j) < length (extrema s)"
      "unat (min_index s + 1) = Suc (unat (min_index s))"
      "s' = s\<lparr>extrema := (extrema s)[unat (i * jmax + j) := - 1],
              minima_x := (minima_x s)[unat (min_index s) := ucast i],
              minima_y := (minima_y s)[unat (min_index s) := ucast j],
              min_index := min_index s + 1\<rparr>"
  | (skip) "\<not> mx" "mn \<longrightarrow> unat cap \<le> unat (min_index s)" "s' = s"
proof -
  note sc = scast_pos [OF ml] and w = wr_int_pos [OF ml]
  show ?thesis
  proof (cases mx)
    case True
    show ?thesis
    proof (cases "scast (maxima_length s) < cap")
      case False
      then have "unat cap \<le> unat (maxima_length s)"
        by (simp add: word_less_nat_alt sc)
      with True False c show ?thesis
        by (intro max_full) (auto simp: classify_def wr_def split: if_splits)
    next
      case g: True
      then have lt: "unat (maxima_length s) < unat cap"
        by (simp add: word_less_nat_alt sc)
      from True g c have ne: "maxima_length s \<noteq> INT_MAX"
        by (auto simp: classify_def incr_int_def split: if_splits sum.splits)
      note ip = incr_pos [OF ml ne]
      from True g c lt ip show ?thesis
        by (intro max_rec) (auto simp: classify_def wr_def w incr_int_def split: if_splits)
    qed
  next
    case nmx: False
    show ?thesis
    proof (cases "mn \<and> min_index s < cap")
      case False
      with nmx c show ?thesis
        by (intro skip) (auto simp: classify_def word_less_nat_alt split: if_splits)
    next
      case True
      then have lt: "unat (min_index s) < unat cap"
        by (simp add: word_less_nat_alt)
      from True have su: "unat (min_index s + 1) = Suc (unat (min_index s))"
        by (intro unat_succ [of _ cap]) simp
      from nmx True c lt su show ?thesis
        by (intro min_rec) (auto simp: classify_def wr_def split: if_splits)
    qed
  qed
qed

lemma map_inv_next_row:
  "map_inv data I J s0 (Suc i) (Suc 0) u = map_inv data I J s0 i (J - Suc 0) u"
  by (simp add: map_inv_def processed_row)

lemma maxima_recorded_step:
  assumes c: "classify jmax cap i j mx mn s = Inr s'"
    and inv: "maxima_recorded data J cap cs s"
    and mx: "mx = is_maximum data J (unat i, unat j)"
  shows "maxima_recorded data J cap (cs @ [(unat i, unat j)]) s'"
proof -
  let ?len = "unat (maxima_length s)"
  let ?ms = "filter (is_maximum data J) cs"
  let ?ms' = "filter (is_maximum data J) (cs @ [(unat i, unat j)])"
  from inv have ml: "?len < 2 ^ 31"
    and cnt: "?len = min (unat cap) (length ?ms)"
    and ent: "\<And>n. n < ?len \<Longrightarrow> maxima_x s ! n = of_nat (fst (?ms ! n)) \<and>
                maxima_y s ! n = of_nat (snd (?ms ! n))"
    by (simp_all add: maxima_recorded_def)
  have same: "maxima_recorded data J cap (cs @ [(unat i, unat j)]) s'"
    if f: "maxima_x s' = maxima_x s" "maxima_y s' = maxima_y s" "maxima_length s' = maxima_length s"
      and keep: "mx \<Longrightarrow> unat cap \<le> ?len"
  proof -
    have cnt': "?len = min (unat cap) (length ?ms')"
      using cnt keep mx by (cases mx) auto
    have "?ms' ! n = ?ms ! n" if "n < ?len" for n
      using that cnt by (cases mx) (auto simp: mx [symmetric] nth_append)
    with ent have "maxima_x s ! n = of_nat (fst (?ms' ! n)) \<and>
                maxima_y s ! n = of_nat (snd (?ms' ! n))" if "n < ?len" for n
      using that by simp
    with ml cnt' show ?thesis
      unfolding maxima_recorded_def f by blast
  qed
  from c ml show ?thesis
  proof (cases rule: classify_cases)
    case max_rec
    from max_rec(2) cnt have len: "?len = length ?ms" by simp
    from max_rec(1) mx have im: "is_maximum data J (unat i, unat j)" by simp
    then have ms': "?ms' = ?ms @ [(unat i, unat j)]" by simp
    have l': "unat (maxima_length s') = Suc ?len"
      by (simp add: max_rec(8) max_rec(6))
    have cnt': "Suc ?len = min (unat cap) (length ?ms')"
      using max_rec(2) len im by simp
    have ent': "maxima_x s' ! n = of_nat (fst (?ms' ! n)) \<and>
                maxima_y s' ! n = of_nat (snd (?ms' ! n))" if "n < Suc ?len" for n
    proof (cases "n = ?len")
      case True
      with max_rec(3,4) len im show ?thesis
        by (simp add: max_rec(8) nth_append)
    next
      case False
      with that have n: "n < ?len" by simp
      with ent [OF n] len im show ?thesis
        by (simp add: max_rec(8) nth_append)
    qed
    from max_rec(7) have "Suc ?len < 2 ^ 31" by (simp only: max_rec(6))
    with cnt' ent' show ?thesis
      unfolding maxima_recorded_def l' by blast
  next
    case max_full
    show ?thesis
      by (rule same) (simp_all add: max_full(4) max_full(2))
  next
    case min_rec
    show ?thesis
      by (rule same) (simp_all add: min_rec(8) min_rec(1))
  next
    case skip
    show ?thesis
      by (rule same) (simp_all add: skip(3) skip(1))
  qed
qed


lemma minima_recorded_step:
  assumes c: "classify jmax cap i j mx mn s = Inr s'"
    and ml: "unat (maxima_length s) < 2 ^ 31"
    and inv: "minima_recorded data J cap s0 cs s"
    and mx: "mx = no_greater data J (unat i) (unat j)"
    and mn: "mn = no_smaller data J (unat i) (unat j)"
    and k: "unat (i * jmax + j) = unat i * J + unat j"
    and fresh: "grid_at (extrema s) J (unat i) (unat j) = grid_at (extrema s0) J (unat i) (unat j)"
    and apart: "\<And>a b. (a, b) \<in> set cs \<Longrightarrow> a * J + b \<noteq> unat i * J + unat j"
  shows "minima_recorded data J cap s0 (cs @ [(unat i, unat j)]) s'"
proof -
  let ?lo = "unat (min_index s0)"
  let ?ns = "filter (is_minimum data J) cs"
  let ?ns' = "filter (is_minimum data J) (cs @ [(unat i, unat j)])"
  let ?r = "room cap s0 (length ?ns)"
  let ?r' = "room cap s0 (length ?ns')"
  from inv have hi: "unat (min_index s) = ?lo + ?r"
    and ent: "\<And>n. n < ?r \<Longrightarrow>
        minima_x s ! (?lo + n) = of_nat (fst (?ns ! n)) \<and>
        minima_y s ! (?lo + n) = of_nat (snd (?ns ! n))"
    and mp: "\<And>n. n < length ?ns \<Longrightarrow>
        grid_at (extrema s) J (fst (?ns ! n)) (snd (?ns ! n)) =
          (if n < ?r then - 1 else grid_at (extrema s0) J (fst (?ns ! n)) (snd (?ns ! n)))"
    by (simp_all add: minima_recorded_def)
  have im: "is_minimum data J (unat i, unat j) \<longleftrightarrow> \<not> mx \<and> mn"
    by (simp add: is_minimum_def mx mn)
  have keep: "grid_at ((extrema s)[unat (i * jmax + j) := v]) J (fst (?ns ! n)) (snd (?ns ! n)) =
                grid_at (extrema s) J (fst (?ns ! n)) (snd (?ns ! n))"
    if "n < length ?ns" for n v
  proof -
    from that have "?ns ! n \<in> set ?ns" by (rule nth_mem)
    then have "(fst (?ns ! n), snd (?ns ! n)) \<in> set cs" by simp
    from apart [OF this] show ?thesis by (simp add: grid_at_def k)
  qed
  have rle: "?r \<le> length ?ns" by (simp add: room_def)
  have unchanged: "minima_recorded data J cap s0 (cs @ [(unat i, unat j)]) s'"
    if f: "minima_x s' = minima_x s" "minima_y s' = minima_y s" "min_index s' = min_index s"
      and e: "extrema s' = extrema s \<or> extrema s' = (extrema s)[unat (i * jmax + j) := v]"
      and nm: "\<not> is_minimum data J (unat i, unat j)"
    for v
  proof -
    from nm have ns': "?ns' = ?ns" by simp
    have "grid_at (extrema s') J (fst (?ns ! n)) (snd (?ns ! n)) =
            (if n < ?r then - 1 else grid_at (extrema s0) J (fst (?ns ! n)) (snd (?ns ! n)))"
      if "n < length ?ns" for n
      using e keep [OF that] mp [OF that] by auto
    with hi ent show ?thesis
      unfolding minima_recorded_def ns' f by blast
  qed
  from c ml show ?thesis
  proof (cases rule: classify_cases)
    case max_rec
    show ?thesis
      by (rule unchanged [of 1]) (simp_all add: max_rec(8) im max_rec(1))
  next
    case max_full
    show ?thesis
      by (rule unchanged [of 1]) (simp_all add: max_full(4) im max_full(1))
  next
    case min_rec
    from min_rec(1,2) im have isc: "is_minimum data J (unat i, unat j)" by simp
    from min_rec(3) hi have full: "?r = length ?ns"
      by (simp add: room_def min_def split: if_splits)
    from min_rec(3) hi full have "Suc (length ?ns) \<le> unat cap - ?lo" by linarith
    then have r': "room cap s0 (Suc (length ?ns)) = Suc (length ?ns)"
      by (simp add: room_def)
    have ex: "extrema s' = (extrema s)[unat (i * jmax + j) := - 1]"
      by (simp add: min_rec(8))
    have hi': "unat (min_index s') = ?lo + Suc (length ?ns)"
      using hi full by (simp add: min_rec(8) min_rec(7))
    have pos: "unat (min_index s) = ?lo + length ?ns"
      using hi full by simp
    have ent': "minima_x s' ! (?lo + n) = of_nat (fst (?ns' ! n)) \<and>
                minima_y s' ! (?lo + n) = of_nat (snd (?ns' ! n))"
      if "n < Suc (length ?ns)" for n
    proof (cases "n = length ?ns")
      case True
      with min_rec(4,5) pos isc show ?thesis
        by (simp add: min_rec(8) nth_append)
    next
      case False
      with that have n: "n < length ?ns" by simp
      with ent [of n] full pos isc show ?thesis
        by (simp add: min_rec(8) nth_append)
    qed
    have mp': "grid_at (extrema s') J (fst (?ns' ! n)) (snd (?ns' ! n)) =
          (if n < Suc (length ?ns) then - 1
           else grid_at (extrema s0) J (fst (?ns' ! n)) (snd (?ns' ! n)))"
      if "n < Suc (length ?ns)" for n
    proof (cases "n = length ?ns")
      case True
      with min_rec(6) isc show ?thesis
        by (simp add: ex grid_at_def k nth_append)
    next
      case False
      with that have n: "n < length ?ns" by simp
      with keep [OF n, of "- 1"] mp [OF n] full isc show ?thesis
        by (simp add: ex nth_append)
    qed
    have len': "length ?ns' = Suc (length ?ns)" using isc by simp
    from hi' ent' mp' show ?thesis
      unfolding minima_recorded_def len' r' by blast
  next
    case skip
    show ?thesis
    proof (cases mn)
      case False
      show ?thesis
        by (rule unchanged [of 0]) (simp_all add: skip(3) im False)
    next
      case True
      with skip(1) im have isc: "is_minimum data J (unat i, unat j)" by simp
      from True skip(2) hi have r: "?r = unat cap - ?lo"
        by (simp add: room_def min_def split: if_splits)
      with rle have r': "room cap s0 (Suc (length ?ns)) = ?r"
        by (simp add: room_def min_def)
      have len': "length ?ns' = Suc (length ?ns)" using isc by simp
      have ent': "minima_x s ! (?lo + n) = of_nat (fst (?ns' ! n)) \<and>
                  minima_y s ! (?lo + n) = of_nat (snd (?ns' ! n))"
        if "n < ?r" for n
        using ent [OF that] that rle isc by (simp add: nth_append)
      have mp': "grid_at (extrema s) J (fst (?ns' ! n)) (snd (?ns' ! n)) =
            (if n < ?r then - 1 else grid_at (extrema s0) J (fst (?ns' ! n)) (snd (?ns' ! n)))"
        if "n < Suc (length ?ns)" for n
      proof (cases "n = length ?ns")
        case True
        with rle fresh isc show ?thesis
          by (simp add: nth_append)
      next
        case False
        with that have n: "n < length ?ns" by simp
        with mp [OF n] isc show ?thesis
          by (simp add: nth_append)
      qed
      from hi ent' mp' show ?thesis
        unfolding minima_recorded_def len' r' skip(3) by blast
    qed
  qed
qed

text \<open>
  The cells dealt with grow by one cell per step and by one row per turn of the outer
  loop, and at the end of the scan they are the interior cells; so the two invariants hold
  of the interior cells when the routine returns.
\<close>

lemma product_snoc: "List.product (xs @ [x]) ys = List.product xs ys @ map (Pair x) ys"
  by (induction xs) simp_all

lemma cells_before_step:
  "1 \<le> j \<Longrightarrow> cells_before J i (Suc j) = cells_before J i j @ [(i, j)]"
  by (simp add: cells_before_def)

lemma cells_before_row:
  "1 \<le> i \<Longrightarrow> cells_before J (Suc i) (Suc 0) = cells_before J i (J - Suc 0)"
  by (simp add: cells_before_def product_snoc)

lemma cells_before_first: "cells_before J (Suc 0) (Suc 0) = []"
  by (simp add: cells_before_def)

lemma cells_before_last: "cells_before J (I - Suc 0) (Suc 0) = interior_cells I J"
  by (simp add: cells_before_def interior_cells_def)

lemma set_cells_before:
  "(a, b) \<in> set (cells_before J i j) \<longleftrightarrow>
     (1 \<le> a \<and> a < i \<and> 1 \<le> b \<and> b + 1 < J) \<or> (a = i \<and> 1 \<le> b \<and> b < j)"
  by (auto simp: cells_before_def)

lemma set_interior_cells:
  "(a, b) \<in> set (interior_cells I J) \<longleftrightarrow> interior I J a b"
  by (auto simp: interior_cells_def interior_def)

lemma distinct_interior_cells: "distinct (interior_cells I J)"
  by (simp add: interior_cells_def distinct_product)

lemma recorded_cell:
  assumes wf: "grid_wf data imax jmax"
    and int: "interior (unat imax) (unat jmax) (unat i) (unat j)"
    and mi: "map_inv data (unat imax) (unat jmax) s0 (unat i) (unat j) s"
    and mr: "maxima_recorded data (unat jmax) cap (cells_before (unat jmax) (unat i) (unat j)) s"
    and nr: "minima_recorded data (unat jmax) cap s0 (cells_before (unat jmax) (unat i) (unat j)) s"
    and c: "cell data jmax cap i j s = Inr s'"
  shows "maxima_recorded data (unat jmax) cap (cells_before (unat jmax) (unat i) (Suc (unat j))) s'"
    and "minima_recorded data (unat jmax) cap s0 (cells_before (unat jmax) (unat i) (Suc (unat j))) s'"
proof -
  let ?I = "unat imax" and ?J = "unat jmax" and ?a = "unat i" and ?b = "unat j"
  from int have bJ: "?b < ?J" "?a < ?I" and b1: "1 \<le> ?b" by (simp_all add: interior_def)
  have k: "unat (i * jmax + j) = ?a * ?J + ?b"
    by (rule rd_grid(2) [OF wf bJ(2) bJ(1)])
  from c have cl: "classify jmax cap i j (no_greater data ?J ?a ?b) (no_smaller data ?J ?a ?b) s = Inr s'"
    by (simp add: cell_def neighbourhood_interior [OF wf int])
  from mr have ml: "unat (maxima_length s) < 2 ^ 31"
    by (simp add: maxima_recorded_def)
  have notproc: "\<not> processed ?I ?J ?a ?b ?a ?b"
    by (simp add: processed_def)
  with mi bJ(1) have fresh: "grid_at (extrema s) ?J ?a ?b = grid_at (extrema s0) ?J ?a ?b"
    by (simp add: map_inv_def grid_at_def)
  have apart: "a * ?J + b \<noteq> ?a * ?J + ?b" if "(a, b) \<in> set (cells_before ?J ?a ?b)" for a b
  proof
    assume e: "a * ?J + b = ?a * ?J + ?b"
    from that bJ(1) have "b < ?J" "a < ?a \<or> b < ?b" by (auto simp: set_cells_before)
    with cell_index_inj [OF this(1) bJ(1) e] show False by simp
  qed
  have mx: "no_greater data ?J ?a ?b = is_maximum data ?J (?a, ?b)"
    by (simp add: is_maximum_def)
  show "maxima_recorded data ?J cap (cells_before ?J ?a (Suc ?b)) s'"
    unfolding cells_before_step [OF b1]
    by (rule maxima_recorded_step [OF cl mr mx])
  show "minima_recorded data ?J cap s0 (cells_before ?J ?a (Suc ?b)) s'"
    unfolding cells_before_step [OF b1]
    by (rule minima_recorded_step [OF cl ml nr refl refl k fresh apart])
qed

lemma recorded_start:
  "maxima_recorded data J cap [] (s\<lparr>maxima_length := 0, minima_length := 0\<rparr>)"
  "minima_recorded data J cap (s\<lparr>maxima_length := 0, minima_length := 0\<rparr>) []
     (s\<lparr>maxima_length := 0, minima_length := 0\<rparr>)"
  by (simp_all add: maxima_recorded_def minima_recorded_def room_def)

lemma recorded_scan:
  assumes wf: "grid_wf data imax jmax"
    and run: "cextrema data imax jmax cap s = Inr s'"
  shows "maxima_recorded data (unat jmax) cap (interior_cells (unat imax) (unat jmax)) s'"
    and "minima_recorded data (unat jmax) cap (s\<lparr>maxima_length := 0, minima_length := 0\<rparr>)
           (interior_cells (unat imax) (unat jmax)) s'"
proof -
  let ?I = "unat imax" and ?J = "unat jmax"
  let ?s = "s\<lparr>maxima_length := 0, minima_length := 0\<rparr>"
  let ?P = "\<lambda>i j t. 1 \<le> j \<and> map_inv data ?I ?J ?s i j t \<and>
      maxima_recorded data ?J cap (cells_before ?J i j) t \<and>
      minima_recorded data ?J cap ?s (cells_before ?J i j) t"
  note d = dims_words [OF wf]
  have il: "case i_loop data imax jmax cap 1 ?s of
          Inl e \<Rightarrow> True
        | Inr s' \<Rightarrow> 1 \<le> max (unat (1 :: size_t)) (unat (imax - 1)) \<and>
                    ?P (max (unat (1 :: size_t)) (unat (imax - 1))) 1 s'"
  proof (rule i_loop_rule [where Q = "\<lambda>i t. 1 \<le> i \<and> ?P i 1 t" and E = "\<lambda>_. True"])
    show "1 \<le> unat (1 :: size_t) \<and> ?P (unat (1 :: size_t)) 1 ?s"
      using recorded_start [of data ?J cap s]
      by (simp add: map_inv_def processed_first cells_before_first)
  next
    fix i t assume i: "i < imax - 1" and q: "1 \<le> unat i \<and> ?P (unat i) 1 t"
    from i d have iI: "unat i + 1 < ?I" by (simp add: word_less_nat_alt)
    have jl: "case j_loop data jmax cap i 1 t of
            Inl e \<Rightarrow> True
          | Inr s' \<Rightarrow> ?P (unat i) (max (unat (1 :: size_t)) (unat (jmax - 1))) s'"
    proof (rule j_loop_rule [where P = "?P (unat i)" and E = "\<lambda>_. True"])
      from q show "?P (unat i) (unat (1 :: size_t)) t" by simp
    next
      fix j u assume j: "j < jmax - 1" and pj: "?P (unat i) (unat j) u"
      from j d have "unat j + 1 < ?J" by (simp add: word_less_nat_alt)
      with pj q iI have int: "interior ?I ?J (unat i) (unat j)"
        by (simp add: interior_def)
      from pj have mi: "map_inv data ?I ?J ?s (unat i) (unat j) u"
        and mr: "maxima_recorded data ?J cap (cells_before ?J (unat i) (unat j)) u"
        and nr: "minima_recorded data ?J cap ?s (cells_before ?J (unat i) (unat j)) u"
        by simp_all
      show "case cell data jmax cap i j u of
              Inl e \<Rightarrow> True | Inr s' \<Rightarrow> ?P (unat i) (Suc (unat j)) s'"
        using map_inv_cell [OF wf int mi] recorded_cell [OF wf int mi mr nr]
        by (auto split: sum.splits)
    qed
    from d have mxj: "max (unat (1 :: size_t)) (unat (jmax - 1)) = ?J - Suc 0" by simp
    from q have i1: "1 \<le> unat i" by simp
    from jl [unfolded mxj] show "case j_loop data jmax cap i 1 t of
            Inl e \<Rightarrow> True | Inr s' \<Rightarrow> 1 \<le> Suc (unat i) \<and> ?P (Suc (unat i)) 1 s'"
      by (auto simp: cells_before_row [OF i1] map_inv_next_row split: sum.splits)
  qed
  from d have mxi: "max (unat (1 :: size_t)) (unat (imax - 1)) = ?I - Suc 0" by simp
  from il [unfolded mxi] have "?P (?I - Suc 0) (Suc 0) s'"
    using run by (simp add: cextrema_def)
  then show "maxima_recorded data ?J cap (interior_cells ?I ?J) s'"
    and "minima_recorded data ?J cap ?s (interior_cells ?I ?J) s'"
    by (simp_all add: cells_before_last)
qed


lemma set_maxima_cells:
  "(a, b) \<in> set (maxima_cells data I J) \<longleftrightarrow> interior I J a b \<and> no_greater data J a b"
  by (simp add: maxima_cells_def set_interior_cells is_maximum_def)

lemma set_minima_cells:
  "(a, b) \<in> set (minima_cells data I J) \<longleftrightarrow>
     interior I J a b \<and> \<not> no_greater data J a b \<and> no_smaller data J a b"
  by (simp add: minima_cells_def set_interior_cells is_minimum_def)

lemma distinct_extrema_cells:
  "distinct (maxima_cells data I J)" "distinct (minima_cells data I J)"
  by (simp_all add: maxima_cells_def minima_cells_def distinct_interior_cells)

section \<open>The claims\<close>

text \<open>
  C1. On a well-formed grid, for every interior cell \<open>(a, b)\<close>: if the scan sets its map
  cell to \<open>+1\<close> (the map holds \<open>1\<close> there after the scan and did not before), no cell of
  the 3x3 block around \<open>(a, b)\<close> is strictly greater than the cell; if the scan sets it to
  \<open>-1\<close>, no cell of the block is strictly smaller.
\<close>

theorem classified_cells_are_extrema:
  assumes "grid_wf data imax jmax"
    and "cextrema data imax jmax min_max_length s = Inr s'"
    and "interior (unat imax) (unat jmax) a b"
  shows "(grid_at (extrema s') (unat jmax) a b = 1 \<and> grid_at (extrema s) (unat jmax) a b \<noteq> 1
            \<longrightarrow> no_greater data (unat jmax) a b) \<and>
         (grid_at (extrema s') (unat jmax) a b = - 1 \<and> grid_at (extrema s) (unat jmax) a b \<noteq> - 1
            \<longrightarrow> no_smaller data (unat jmax) a b)"
proof -
  from assms(3) have "b < unat jmax" by (simp add: interior_def)
  from map_inv_scan(2) [OF assms(1,2) this, of a] assms(3)
  have "cell_rule data (unat jmax) a b (grid_at (extrema s) (unat jmax) a b)
          (grid_at (extrema s') (unat jmax) a b)"
    by (simp add: grid_at_def)
  then show ?thesis
    by (auto simp: cell_rule_def split: if_splits)
qed

theorem classified_cells_are_extrema_witness:
  "grid_wf peak 3 3 \<and> grid_wf pit 3 3 \<and> interior 3 3 1 1 \<and>
   cextrema peak 3 3 1 (zeroed 9 1) =
     Inr \<lparr>extrema = [0, 0, 0, 0, 1, 0, 0, 0, 0],
          maxima_x = [1], maxima_y = [1], minima_x = [0], minima_y = [0],
          maxima_length = 1, minima_length = 0, min_index = 0\<rparr> \<and>
   no_greater peak 3 1 1 \<and>
   cextrema pit 3 3 1 (zeroed 9 1) =
     Inr \<lparr>extrema = [0, 0, 0, 0, - 1, 0, 0, 0, 0],
          maxima_x = [0], maxima_y = [0], minima_x = [1], minima_y = [1],
          maxima_length = 0, minima_length = 0, min_index = 1\<rparr> \<and>
   no_smaller pit 3 1 1"
proof -
  have wf: "grid_wf peak 3 3" "grid_wf pit 3 3"
    by (simp_all add: grid_wf_def peak_def pit_def)
  have int: "interior (unat (3 :: size_t)) (unat (3 :: size_t)) 1 1"
    by (simp add: interior_def)
  have r1: "cextrema peak 3 3 1 (zeroed 9 1) =
     Inr \<lparr>extrema = [0, 0, 0, 0, 1, 0, 0, 0, 0],
          maxima_x = [1], maxima_y = [1], minima_x = [0], minima_y = [0],
          maxima_length = 1, minima_length = 0, min_index = 0\<rparr>"
    by code_simp
  have r2: "cextrema pit 3 3 1 (zeroed 9 1) =
     Inr \<lparr>extrema = [0, 0, 0, 0, - 1, 0, 0, 0, 0],
          maxima_x = [0], maxima_y = [0], minima_x = [1], minima_y = [1],
          maxima_length = 0, minima_length = 0, min_index = 1\<rparr>"
    by code_simp
  have z: "grid_at (extrema (zeroed 9 1)) 3 1 1 = 0"
    by (simp add: grid_at_def zeroed_def)
  from classified_cells_are_extrema [OF wf(1) r1 int] z
  have "no_greater peak 3 1 1" by (simp add: grid_at_def)
  moreover from classified_cells_are_extrema [OF wf(2) r2 int] z
  have "no_smaller pit 3 1 1" by (simp add: grid_at_def)
  ultimately show ?thesis
    using wf int r1 r2 by simp
qed

text \<open>
  C2. The claim: for each kind, a coordinate is appended to the list exactly when the scan
  sets the map cell to the matching sign, also after the list has reached its capacity.
  The maxima branch writes the map before it tests the capacity: on a flat grid of 3 rows
  and 4 columns with capacity 1 the scan marks the two interior cells \<open>(1, 1)\<close> and
  \<open>(1, 2)\<close> with \<open>+1\<close> and records only \<open>(1, 1)\<close>.
\<close>

theorem full_maxima_list_diverges_from_map:
  "cextrema [0, 0, 0, 0, 0, 0, 0, 0, 0, 0, 0, 0 :: real] 3 4 1 (zeroed 12 1) =
     Inr \<lparr>extrema = [0, 0, 0, 0, 0, 1, 1, 0, 0, 0, 0, 0],
          maxima_x = [1], maxima_y = [1], minima_x = [0], minima_y = [0],
          maxima_length = 1, minima_length = 0, min_index = 0\<rparr>"
  by code_simp

text \<open>
  C2, as the code has it, on a well-formed grid. Let the maxima of the grid be its interior
  cells with no strictly greater cell in their 3x3 block, and its minima the interior cells
  that are no maxima and have no strictly smaller cell in their block, both in the order
  of the scan (row by row, left to right).

  Maxima: every maximum has \<open>+1\<close> in the map after the scan, also when the maxima arrays
  are full, and every interior cell the scan sets to \<open>+1\<close> is a maximum;
  \<^verbatim>\<open>maxima_length\<close> is the smaller of the capacity and the number of maxima, and entry \<open>n\<close>
  of the maxima arrays below it is the \<open>n\<close>-th maximum. So the first maxima, up to the
  capacity, are appended, and the maxima after them are marked in the map without being
  appended.

  Minima, for which the claim holds as it stands: with \<open>r\<close> the number of minima the
  capacity leaves room for, \<^verbatim>\<open>min_index\<close> advances by \<open>r\<close>, the entries of the minima
  arrays from its value at entry on are the first \<open>r\<close> minima, the map cell of the \<open>n\<close>-th
  minimum holds \<open>-1\<close> if \<open>n < r\<close> and is untouched if not, and every interior cell the scan
  sets to \<open>-1\<close> is one of the first \<open>r\<close> minima. So a minimum is appended exactly when
  the scan sets its map cell to \<open>-1\<close>.
\<close>

theorem lists_agree_with_map:
  assumes "grid_wf data imax jmax"
    and "cextrema data imax jmax min_max_length s = Inr s'"
  shows "(\<forall>a b. interior (unat imax) (unat jmax) a b \<and> no_greater data (unat jmax) a b \<longrightarrow>
            grid_at (extrema s') (unat jmax) a b = 1) \<and>
         (\<forall>a b. interior (unat imax) (unat jmax) a b \<and>
              grid_at (extrema s') (unat jmax) a b = 1 \<and>
              grid_at (extrema s) (unat jmax) a b \<noteq> 1 \<longrightarrow>
            (\<exists>n < length (maxima_cells data (unat imax) (unat jmax)).
                maxima_cells data (unat imax) (unat jmax) ! n = (a, b))) \<and>
         unat (maxima_length s') =
           min (unat min_max_length) (length (maxima_cells data (unat imax) (unat jmax))) \<and>
         (\<forall>n < unat (maxima_length s').
            maxima_x s' ! n = of_nat (fst (maxima_cells data (unat imax) (unat jmax) ! n)) \<and>
            maxima_y s' ! n = of_nat (snd (maxima_cells data (unat imax) (unat jmax) ! n))) \<and>
         unat (min_index s') = unat (min_index s) +
           room min_max_length s (length (minima_cells data (unat imax) (unat jmax))) \<and>
         (\<forall>n < room min_max_length s (length (minima_cells data (unat imax) (unat jmax))).
            minima_x s' ! (unat (min_index s) + n) =
              of_nat (fst (minima_cells data (unat imax) (unat jmax) ! n)) \<and>
            minima_y s' ! (unat (min_index s) + n) =
              of_nat (snd (minima_cells data (unat imax) (unat jmax) ! n))) \<and>
         (\<forall>n < length (minima_cells data (unat imax) (unat jmax)).
            grid_at (extrema s') (unat jmax)
                (fst (minima_cells data (unat imax) (unat jmax) ! n))
                (snd (minima_cells data (unat imax) (unat jmax) ! n)) =
              (if n < room min_max_length s (length (minima_cells data (unat imax) (unat jmax)))
               then - 1
               else grid_at (extrema s) (unat jmax)
                      (fst (minima_cells data (unat imax) (unat jmax) ! n))
                      (snd (minima_cells data (unat imax) (unat jmax) ! n)))) \<and>
         (\<forall>a b. interior (unat imax) (unat jmax) a b \<and>
              grid_at (extrema s') (unat jmax) a b = - 1 \<and>
              grid_at (extrema s) (unat jmax) a b \<noteq> - 1 \<longrightarrow>
            (\<exists>n < room min_max_length s (length (minima_cells data (unat imax) (unat jmax))).
                minima_cells data (unat imax) (unat jmax) ! n = (a, b)))"
proof -
  let ?I = "unat imax" and ?J = "unat jmax"
  let ?ms = "maxima_cells data ?I ?J" and ?ns = "minima_cells data ?I ?J"
  let ?r = "room min_max_length s (length ?ns)"
  let ?s = "s\<lparr>maxima_length := 0, minima_length := 0\<rparr>"
  note l = recorded_scan [OF assms]
  have rule: "cell_rule data ?J a b (grid_at (extrema s) ?J a b) (grid_at (extrema s') ?J a b)"
    if "interior ?I ?J a b" for a b
  proof -
    from that have "b < ?J" by (simp add: interior_def)
    from map_inv_scan(2) [OF assms this, of a] that show ?thesis
      by (simp add: grid_at_def)
  qed
  have A: "grid_at (extrema s') ?J a b = 1"
    if "interior ?I ?J a b" "no_greater data ?J a b" for a b
    using rule [OF that(1)] that(2) by (simp add: cell_rule_def)
  have B: "\<exists>n < length ?ms. ?ms ! n = (a, b)"
    if "interior ?I ?J a b" "grid_at (extrema s') ?J a b = 1"
      "grid_at (extrema s) ?J a b \<noteq> 1" for a b
  proof -
    from rule [OF that(1)] that(2,3) have "no_greater data ?J a b"
      by (auto simp: cell_rule_def split: if_splits)
    with that(1) have "(a, b) \<in> set ?ms" by (simp add: set_maxima_cells)
    then show ?thesis by (simp add: in_set_conv_nth)
  qed
  from l(1) have C: "unat (maxima_length s') = min (unat min_max_length) (length ?ms)"
    and D: "\<forall>n < unat (maxima_length s').
              maxima_x s' ! n = of_nat (fst (?ms ! n)) \<and> maxima_y s' ! n = of_nat (snd (?ms ! n))"
    unfolding maxima_recorded_def maxima_cells_def by blast+
  have rm: "room min_max_length ?s n = room min_max_length s n" for n
    by (simp add: room_def)
  from l(2) have E: "unat (min_index s') = unat (min_index s) + ?r"
    and F: "\<forall>n < ?r. minima_x s' ! (unat (min_index s) + n) = of_nat (fst (?ns ! n)) \<and>
                     minima_y s' ! (unat (min_index s) + n) = of_nat (snd (?ns ! n))"
    and G: "\<forall>n < length ?ns.
              grid_at (extrema s') ?J (fst (?ns ! n)) (snd (?ns ! n)) =
                (if n < ?r then - 1
                 else grid_at (extrema s) ?J (fst (?ns ! n)) (snd (?ns ! n)))"
    unfolding minima_recorded_def minima_cells_def rm by simp_all
  have H: "\<exists>n < ?r. ?ns ! n = (a, b)"
    if "interior ?I ?J a b" "grid_at (extrema s') ?J a b = - 1"
      "grid_at (extrema s) ?J a b \<noteq> - 1" for a b
  proof -
    from rule [OF that(1)] that(2,3)
    have "\<not> no_greater data ?J a b" "no_smaller data ?J a b"
      by (auto simp: cell_rule_def split: if_splits)
    with that(1) have "(a, b) \<in> set ?ns" by (simp add: set_minima_cells)
    then obtain n where n: "n < length ?ns" "?ns ! n = (a, b)"
      by (auto simp: in_set_conv_nth)
    from G n that(2,3) have "n < ?r"
      by (auto split: if_splits)
    with n(2) show ?thesis by blast
  qed
  from A B C D E F G H show ?thesis by blast
qed

theorem lists_agree_with_map_witness:
  "grid_wf [0, 0, 0, 0, 0, 0, 0, 0, 0, 0, 0, 0 :: real] 3 4 \<and>
   cextrema [0, 0, 0, 0, 0, 0, 0, 0, 0, 0, 0, 0 :: real] 3 4 1 (zeroed 12 1) =
     Inr \<lparr>extrema = [0, 0, 0, 0, 0, 1, 1, 0, 0, 0, 0, 0],
          maxima_x = [1], maxima_y = [1], minima_x = [0], minima_y = [0],
          maxima_length = 1, minima_length = 0, min_index = 0\<rparr> \<and>
   maxima_cells [0, 0, 0, 0, 0, 0, 0, 0, 0, 0, 0, 0 :: real] 3 4 = [(1, 1), (1, 2)] \<and>
   interior 3 4 1 2 \<and>
   no_greater [0, 0, 0, 0, 0, 0, 0, 0, 0, 0, 0, 0 :: real] 4 1 2 \<and>
   grid_at [0, 0, 0, 0, 0, 1, 1, 0, 0, 0, 0, 0 :: real] 4 1 2 = 1 \<and>
   unat (1 :: c_int) = min (unat (1 :: size_t)) (length [(1, 1), (1, 2 :: nat)]) \<and>
   [1 :: c_int] ! 0 = of_nat (fst (1 :: nat, 1 :: nat)) \<and>
   grid_wf two_pits 3 4 \<and>
   cextrema two_pits 3 4 1 (zeroed 12 1) =
     Inr \<lparr>extrema = [0, 0, 0, 0, 0, - 1, 0, 0, 0, 0, 0, 0],
          maxima_x = [0], maxima_y = [0], minima_x = [1], minima_y = [1],
          maxima_length = 0, minima_length = 0, min_index = 1\<rparr> \<and>
   minima_cells two_pits 3 4 = [(1, 1), (1, 2)] \<and>
   room 1 (zeroed 12 1) 2 = 1 \<and>
   unat (1 :: size_t) = unat (0 :: size_t) + 1 \<and>
   [1 :: c_int] ! (unat (0 :: size_t) + 0) = of_nat (snd (1 :: nat, 1 :: nat)) \<and>
   grid_at [0, 0, 0, 0, 0, - 1, 0, 0, 0, 0, 0, 0 :: real] 4 1 1 = - 1 \<and>
   grid_at [0, 0, 0, 0, 0, - 1, 0, 0, 0, 0, 0, 0 :: real] 4 1 2 =
     grid_at (replicate 12 (0 :: real)) 4 1 2"
proof -
  let ?flat = "[0, 0, 0, 0, 0, 0, 0, 0, 0, 0, 0, 0 :: real]"
  have wf: "grid_wf ?flat 3 4" "grid_wf two_pits 3 4"
    by (simp_all add: grid_wf_def two_pits_def)
  have r1: "cextrema ?flat 3 4 1 (zeroed 12 1) =
     Inr \<lparr>extrema = [0, 0, 0, 0, 0, 1, 1, 0, 0, 0, 0, 0],
          maxima_x = [1], maxima_y = [1], minima_x = [0], minima_y = [0],
          maxima_length = 1, minima_length = 0, min_index = 0\<rparr>"
    by code_simp
  have r2: "cextrema two_pits 3 4 1 (zeroed 12 1) =
     Inr \<lparr>extrema = [0, 0, 0, 0, 0, - 1, 0, 0, 0, 0, 0, 0],
          maxima_x = [0], maxima_y = [0], minima_x = [1], minima_y = [1],
          maxima_length = 0, minima_length = 0, min_index = 1\<rparr>"
    by code_simp
  have mc: "maxima_cells ?flat 3 4 = [(1, 1), (1, 2)]"
    by code_simp
  have nc: "minima_cells two_pits 3 4 = [(1, 1), (1, 2)]"
    by code_simp
  have int: "interior 3 4 1 2" by (simp add: interior_def)
  have ng: "no_greater ?flat 4 1 2" by code_simp
  have rm: "room 1 (zeroed 12 1) 2 = 1"
    and rl: "room 1 (zeroed 12 1) (length [(1, 1), (1, 2 :: nat)]) = 1"
    by (simp_all add: room_def zeroed_def)
  have z: "min_index (zeroed 12 1) = 0" "extrema (zeroed 12 1) = replicate 12 0"
    by (simp_all add: zeroed_def)
  have u: "unat (3 :: size_t) = 3" "unat (4 :: size_t) = 4" by simp_all
  note a = lists_agree_with_map [OF wf(1) r1, unfolded u mc]
  note b = lists_agree_with_map [OF wf(2) r2, unfolded u nc rl z]
  from a int ng have a1: "grid_at [0, 0, 0, 0, 0, 1, 1, 0, 0, 0, 0, 0 :: real] 4 1 2 = 1"
    by simp
  from a have a2: "unat (1 :: c_int) = min (unat (1 :: size_t)) (length [(1, 1), (1, 2 :: nat)])"
    by simp
  from a have a3: "[1 :: c_int] ! 0 = of_nat (fst (1 :: nat, 1 :: nat))"
    by simp
  from b have b1: "unat (1 :: size_t) = unat (0 :: size_t) + 1"
    by simp
  from b have b2: "[1 :: c_int] ! (unat (0 :: size_t) + 0) = of_nat (snd (1 :: nat, 1 :: nat))"
    by simp
  from b have b3: "grid_at [0, 0, 0, 0, 0, - 1, 0, 0, 0, 0, 0, 0 :: real] 4 1 1 = - 1"
    by (simp add: All_less_Suc)
  from b have b4: "grid_at [0, 0, 0, 0, 0, - 1, 0, 0, 0, 0, 0, 0 :: real] 4 1 2 =
     grid_at (replicate 12 (0 :: real)) 4 1 2"
    by (simp add: All_less_Suc)
  from wf r1 r2 mc nc int ng rm a1 a2 a3 b1 b2 b3 b4 show ?thesis
    by blast
qed

text \<open>
  C3. The count reported in \<^verbatim>\<open>minima_length\<close> is meant to be the number of coordinate
  pairs written to the minima arrays, as \<^verbatim>\<open>maxima_length\<close> is for the maxima. The routine
  sets \<^verbatim>\<open>minima_length\<close> to 0 at entry and never touches it again: the minima branch counts
  in \<^verbatim>\<open>min_index\<close>. On the pit with capacity 1 one pair, \<open>(1, 1)\<close>, is written to the minima
  arrays and the reported count is 0.
\<close>

theorem minima_count_not_reported:
  "cextrema pit 3 3 1 (zeroed 9 1) =
     Inr \<lparr>extrema = [0, 0, 0, 0, - 1, 0, 0, 0, 0],
          maxima_x = [0], maxima_y = [0], minima_x = [1], minima_y = [1],
          maxima_length = 0, minima_length = 0, min_index = 1\<rparr>"
  by code_simp

text \<open>
  C4. The claim: the scan fails with \<^verbatim>\<open>InvalidDimensions\<close> when rows or cols is below 3,
  with \<^verbatim>\<open>NullOrMismatchedBuffer\<close> when a buffer is absent or of the wrong size, with
  \<^verbatim>\<open>InvalidCapacity\<close> when the capacity is negative, and then produces no output. The
  routine returns \<^verbatim>\<open>void\<close> and checks nothing; its capacity is a \<^verbatim>\<open>size_t\<close>, which has no
  negative values. With 2 rows, 2 columns and empty buffers it returns normally.
\<close>

theorem invalid_dimensions_not_reported:
  "cextrema ([] :: real list) 2 2 0 (zeroed 0 0) = Inr (zeroed 0 0)"
  by code_simp

text \<open>
  C4, as the code has it: with 1 or 2 rows, or 1 or 2 columns, the scan does not fail;
  it returns normally, having set both counts to 0 and touched nothing else.
\<close>

theorem small_dimensions_do_not_fail:
  assumes "imax = 1 \<or> imax = 2 \<or> jmax = 1 \<or> jmax = 2"
  shows "cextrema data imax jmax min_max_length s =
           Inr (s\<lparr>maxima_length := 0, minima_length := 0\<rparr>)"
  using assms by (rule small_grid)

theorem small_dimensions_do_not_fail_witness:
  "cextrema ([] :: real list) 1 7 0 (zeroed 0 0) = Inr (zeroed 0 0)"
  using small_dimensions_do_not_fail [of 1 7 "[] :: real list" 0 "zeroed 0 0"]
  by (simp add: zeroed_def)

text \<open>
  C5. On a flat grid (every sample equal to \<open>v\<close>, with \<open>v < v\<close> false, as for every float)
  with at least 3 rows and columns, buffers of the declared sizes and a capacity that
  holds all the interior cells, their number fitting an \<^verbatim>\<open>int\<close>, the scan returns with
  every interior cell marked \<open>+1\<close> in the map and counted in \<^verbatim>\<open>maxima_length\<close>, and with no
  minimum: the rest of the map, the minima arrays and \<^verbatim>\<open>min_index\<close> are as before.
\<close>

theorem flat_grid_is_all_maxima:
  assumes "grid_wf data imax jmax"
    and "\<forall>k < length data. data ! k = v" and "\<not> v < v"
    and "buffers_sized imax jmax min_max_length s"
    and "(unat imax - 2) * (unat jmax - 2) \<le> unat min_max_length"
    and "(unat imax - 2) * (unat jmax - 2) < 2 ^ 31"
  shows "\<exists>s'. cextrema data imax jmax min_max_length s = Inr s' \<and>
           (\<forall>a b. interior (unat imax) (unat jmax) a b \<longrightarrow>
                    grid_at (extrema s') (unat jmax) a b = 1) \<and>
           (\<forall>a b. b < unat jmax \<and> \<not> interior (unat imax) (unat jmax) a b \<longrightarrow>
                    grid_at (extrema s') (unat jmax) a b = grid_at (extrema s) (unat jmax) a b) \<and>
           unat (maxima_length s') = (unat imax - 2) * (unat jmax - 2) \<and>
           minima_x s' = minima_x s \<and> minima_y s' = minima_y s \<and>
           min_index s' = min_index s"
proof -
  from assms(5,6) have "min (unat min_max_length) ((unat imax - 2) * (unat jmax - 2)) < 2 ^ 31"
    by simp
  from flat_scan [OF assms(1-4) this] assms(5)
  obtain s' where run: "cextrema data imax jmax min_max_length s = Inr s'"
    and rest: "unat (maxima_length s') = (unat imax - 2) * (unat jmax - 2)"
      "minima_x s' = minima_x s" "minima_y s' = minima_y s" "min_index s' = min_index s"
    by (auto simp: min_def split: if_splits)
  note m = map_inv_scan(2) [OF assms(1) run]
  have "grid_at (extrema s') (unat jmax) a b = 1" if "interior (unat imax) (unat jmax) a b" for a b
  proof -
    from that have "b < unat jmax" by (simp add: interior_def)
    from m [OF this, of a] that no_greater_flat [OF assms(1) that assms(2,3)]
    show ?thesis by (simp add: cell_rule_def grid_at_def)
  qed
  moreover have "grid_at (extrema s') (unat jmax) a b = grid_at (extrema s) (unat jmax) a b"
    if "b < unat jmax" "\<not> interior (unat imax) (unat jmax) a b" for a b
    using m [OF that(1), of a] that(2) by (simp add: grid_at_def)
  ultimately show ?thesis
    using run rest by blast
qed

theorem flat_grid_is_all_maxima_witness:
  "grid_wf flat 3 3 \<and> list_all (\<lambda>x. x = 0) flat \<and> \<not> (0 :: real) < 0 \<and>
   buffers_sized 3 3 1 (zeroed 9 1) \<and>
   cextrema flat 3 3 1 (zeroed 9 1) =
     Inr \<lparr>extrema = [0, 0, 0, 0, 1, 0, 0, 0, 0],
          maxima_x = [1], maxima_y = [1], minima_x = [0], minima_y = [0],
          maxima_length = 1, minima_length = 0, min_index = 0\<rparr> \<and>
   interior 3 3 1 1 \<and>
   grid_at [0, 0, 0, 0, 1, 0, 0, 0, 0 :: real] 3 1 1 = 1"
proof -
  have wf: "grid_wf flat 3 3" by (simp add: grid_wf_def flat_def)
  have la: "list_all (\<lambda>x. x = 0) flat" by (simp add: flat_def)
  then have fl: "\<forall>k < length flat. flat ! k = 0" by (simp add: list_all_length)
  have irr: "\<not> (0 :: real) < 0" by simp
  have b: "buffers_sized 3 3 1 (zeroed 9 1)" by (simp add: buffers_sized_def zeroed_def)
  have c: "(unat (3 :: size_t) - 2) * (unat (3 :: size_t) - 2) \<le> unat (1 :: size_t)"
    "(unat (3 :: size_t) - 2) * (unat (3 :: size_t) - 2) < 2 ^ 31" by simp_all
  have int: "interior 3 3 1 1" by (simp add: interior_def)
  have r: "cextrema flat 3 3 1 (zeroed 9 1) =
     Inr \<lparr>extrema = [0, 0, 0, 0, 1, 0, 0, 0, 0],
          maxima_x = [1], maxima_y = [1], minima_x = [0], minima_y = [0],
          maxima_length = 1, minima_length = 0, min_index = 0\<rparr>"
    by code_simp
  from flat_grid_is_all_maxima [OF wf fl irr b c] r int
  have "grid_at [0, 0, 0, 0, 1, 0, 0, 0, 0 :: real] 3 1 1 = 1" by auto
  with wf la irr b r int show ?thesis by blast
qed

text \<open>
  C6. On a well-formed grid the scan writes no map cell of the outer ring (row 0, the
  last row, column 0, the last column), and an interior cell that is neither a maximum nor
  a minimum keeps its map value; a map element that changed belongs to an interior cell
  that is a maximum or a minimum. The map keeps its length.
\<close>

theorem only_classified_interior_cells_written:
  assumes "grid_wf data imax jmax"
    and "cextrema data imax jmax min_max_length s = Inr s'"
  shows "(a < unat imax \<and> b < unat jmax \<and>
            (a = 0 \<or> a = unat imax - 1 \<or> b = 0 \<or> b = unat jmax - 1) \<longrightarrow>
          grid_at (extrema s') (unat jmax) a b = grid_at (extrema s) (unat jmax) a b) \<and>
         (interior (unat imax) (unat jmax) a b \<and>
            \<not> no_greater data (unat jmax) a b \<and> \<not> no_smaller data (unat jmax) a b \<longrightarrow>
          grid_at (extrema s') (unat jmax) a b = grid_at (extrema s) (unat jmax) a b) \<and>
         (extrema s' ! k \<noteq> extrema s ! k \<longrightarrow>
            interior (unat imax) (unat jmax) (k div unat jmax) (k mod unat jmax) \<and>
            (no_greater data (unat jmax) (k div unat jmax) (k mod unat jmax) \<or>
             no_smaller data (unat jmax) (k div unat jmax) (k mod unat jmax))) \<and>
         length (extrema s') = length (extrema s)"
proof -
  note d = dims_words [OF assms(1)]
  note m = map_inv_scan [OF assms]
  have 1: "grid_at (extrema s') (unat jmax) a b = grid_at (extrema s) (unat jmax) a b"
    if "a < unat imax" "b < unat jmax" "a = 0 \<or> a = unat imax - 1 \<or> b = 0 \<or> b = unat jmax - 1"
  proof -
    from that have "\<not> interior (unat imax) (unat jmax) a b"
      by (auto simp: interior_def)
    with m(2) [OF that(2), of a] show ?thesis by (simp add: grid_at_def)
  qed
  have 2: "grid_at (extrema s') (unat jmax) a b = grid_at (extrema s) (unat jmax) a b"
    if "interior (unat imax) (unat jmax) a b"
      "\<not> no_greater data (unat jmax) a b" "\<not> no_smaller data (unat jmax) a b"
  proof -
    from that(1) have "b < unat jmax" by (simp add: interior_def)
    from m(2) [OF this, of a] that show ?thesis
      by (simp add: grid_at_def cell_rule_def)
  qed
  have 3: "interior (unat imax) (unat jmax) (k div unat jmax) (k mod unat jmax) \<and>
            (no_greater data (unat jmax) (k div unat jmax) (k mod unat jmax) \<or>
             no_smaller data (unat jmax) (k div unat jmax) (k mod unat jmax))"
    if "extrema s' ! k \<noteq> extrema s ! k"
  proof -
    from d have "k mod unat jmax < unat jmax" by simp
    from m(2) [OF this, of "k div unat jmax"] that show ?thesis
      by (auto simp: cell_rule_def split: if_splits)
  qed
  from 1 2 3 m(1) show ?thesis by blast
qed

theorem only_classified_interior_cells_written_witness:
  "grid_wf slope 3 3 \<and> grid_wf peak 3 3 \<and>
   cextrema slope 3 3 1 (zeroed 9 1) = Inr (zeroed 9 1) \<and>
   interior 3 3 1 1 \<and> \<not> no_greater slope 3 1 1 \<and> \<not> no_smaller slope 3 1 1 \<and>
   cextrema peak 3 3 1 (zeroed 9 1) =
     Inr \<lparr>extrema = [0, 0, 0, 0, 1, 0, 0, 0, 0],
          maxima_x = [1], maxima_y = [1], minima_x = [0], minima_y = [0],
          maxima_length = 1, minima_length = 0, min_index = 0\<rparr> \<and>
   grid_at [0, 0, 0, 0, 1, 0, 0, 0, 0 :: real] 3 0 2 = grid_at (extrema (zeroed 9 1)) 3 0 2 \<and>
   no_greater peak 3 (4 div 3) (4 mod 3)"
proof -
  have wf: "grid_wf slope 3 3" "grid_wf peak 3 3"
    by (simp_all add: grid_wf_def slope_def peak_def)
  have int: "interior 3 3 1 1" by (simp add: interior_def)
  have r1: "cextrema slope 3 3 1 (zeroed 9 1) = Inr (zeroed 9 1)"
    by code_simp
  have r2: "cextrema peak 3 3 1 (zeroed 9 1) =
     Inr \<lparr>extrema = [0, 0, 0, 0, 1, 0, 0, 0, 0],
          maxima_x = [1], maxima_y = [1], minima_x = [0], minima_y = [0],
          maxima_length = 1, minima_length = 0, min_index = 0\<rparr>"
    by code_simp
  have n: "\<not> no_greater slope 3 1 1" "\<not> no_smaller slope 3 1 1" "\<not> no_smaller peak 3 (4 div 3) (4 mod 3)"
    by code_simp+
  have z: "extrema (zeroed 9 1) ! 4 = 0"
    by (simp add: zeroed_def)
  from only_classified_interior_cells_written [OF wf(2) r2, of 0 2 4] z n(3)
  have "grid_at [0, 0, 0, 0, 1, 0, 0, 0, 0 :: real] 3 0 2 = grid_at (extrema (zeroed 9 1)) 3 0 2"
    and "no_greater peak 3 (4 div 3) (4 mod 3)"
    by simp_all
  with wf int r1 r2 n show ?thesis by simp
qed

text \<open>
  C7. For every grid and every capacity, at every point of the scan the number of entries
  written to the maxima arrays, and the number written to the minima arrays, is at most
  the capacity: \<open>within_capacity\<close> holds when the loops start, every step of the scan on
  one cell keeps it, and it holds when the scan returns.
\<close>

theorem lists_never_exceed_capacity:
  "within_capacity min_max_length
     (s\<lparr>maxima_length := 0, minima_length := 0\<rparr>) (s\<lparr>maxima_length := 0, minima_length := 0\<rparr>) \<and>
   (within_capacity min_max_length (s\<lparr>maxima_length := 0, minima_length := 0\<rparr>) t \<and>
      cell data jmax min_max_length i j t = Inr t' \<longrightarrow>
    within_capacity min_max_length (s\<lparr>maxima_length := 0, minima_length := 0\<rparr>) t') \<and>
   (cextrema data imax jmax min_max_length s = Inr s' \<longrightarrow>
    within_capacity min_max_length (s\<lparr>maxima_length := 0, minima_length := 0\<rparr>) s')"
proof (intro conjI impI)
  show "within_capacity min_max_length
      (s\<lparr>maxima_length := 0, minima_length := 0\<rparr>) (s\<lparr>maxima_length := 0, minima_length := 0\<rparr>)"
    by (rule within_capacity_start)
next
  assume "within_capacity min_max_length (s\<lparr>maxima_length := 0, minima_length := 0\<rparr>) t \<and>
      cell data jmax min_max_length i j t = Inr t'"
  then show "within_capacity min_max_length (s\<lparr>maxima_length := 0, minima_length := 0\<rparr>) t'"
    using within_capacity_cell by blast
next
  assume "cextrema data imax jmax min_max_length s = Inr s'"
  with within_capacity_i_loop [OF within_capacity_start, of min_max_length s data imax jmax 1]
  show "within_capacity min_max_length (s\<lparr>maxima_length := 0, minima_length := 0\<rparr>) s'"
    by (simp add: cextrema_def)
qed

theorem lists_never_exceed_capacity_witness:
  "cextrema pit 3 3 1 (zeroed 9 1) =
     Inr \<lparr>extrema = [0, 0, 0, 0, - 1, 0, 0, 0, 0],
          maxima_x = [0], maxima_y = [0], minima_x = [1], minima_y = [1],
          maxima_length = 0, minima_length = 0, min_index = 1\<rparr> \<and>
   within_capacity 1 (zeroed 9 1)
     \<lparr>extrema = [0, 0, 0, 0, - 1, 0, 0, 0, 0],
      maxima_x = [0], maxima_y = [0], minima_x = [1], minima_y = [1],
      maxima_length = 0, minima_length = 0, min_index = 1\<rparr>"
proof -
  have r: "cextrema pit 3 3 1 (zeroed 9 1) =
     Inr \<lparr>extrema = [0, 0, 0, 0, - 1, 0, 0, 0, 0],
          maxima_x = [0], maxima_y = [0], minima_x = [1], minima_y = [1],
          maxima_length = 0, minima_length = 0, min_index = 1\<rparr>"
    by code_simp
  have z: "(zeroed 9 1)\<lparr>maxima_length := 0, minima_length := 0\<rparr> = zeroed 9 1"
    by (simp add: zeroed_def)
  from lists_never_exceed_capacity [of 1 "zeroed 9 1" _ pit 3 _ _ _ 3] r z
  show ?thesis by simp
qed

text \<open>
  C8. With 2 rows or 2 columns the scan classifies nothing, whatever the samples are:
  it returns with the map, the four coordinate arrays and \<^verbatim>\<open>min_index\<close> as they were and
  with both counts 0.
\<close>

theorem no_interior_no_classification:
  assumes "imax = 2 \<or> jmax = 2"
  shows "\<exists>s'. cextrema data imax jmax min_max_length s = Inr s' \<and>
           extrema s' = extrema s \<and>
           maxima_x s' = maxima_x s \<and> maxima_y s' = maxima_y s \<and>
           minima_x s' = minima_x s \<and> minima_y s' = minima_y s \<and>
           maxima_length s' = 0 \<and> minima_length s' = 0 \<and>
           min_index s' = min_index s"
  using assms small_grid [of imax jmax data min_max_length s] by auto

theorem no_interior_no_classification_witness:
  "cextrema [5, 1, 7, 3 :: real] 2 2 4 (zeroed 4 4) = Inr (zeroed 4 4)"
proof -
  have "(2 :: size_t) = 2 \<or> (2 :: size_t) = 2" by simp
  from no_interior_no_classification [OF this, of "[5, 1, 7, 3 :: real]" 4 "zeroed 4 4"]
  obtain s' where "cextrema [5, 1, 7, 3 :: real] 2 2 4 (zeroed 4 4) = Inr s'"
    and "extrema s' = extrema (zeroed 4 4)"
    and "maxima_x s' = maxima_x (zeroed 4 4)" and "maxima_y s' = maxima_y (zeroed 4 4)"
    and "minima_x s' = minima_x (zeroed 4 4)" and "minima_y s' = minima_y (zeroed 4 4)"
    and "maxima_length s' = 0" and "minima_length s' = 0"
    and "min_index s' = min_index (zeroed 4 4)"
    by blast
  moreover have "cextrema [5, 1, 7, 3 :: real] 2 2 4 (zeroed 4 4) = Inr (zeroed 4 4)"
    by code_simp
  ultimately show ?thesis by simp
qed

text \<open>
  C9. Two runs on the same grid, each started from zeroed map, arrays and counts, are
  meant to give the same map, arrays and counts. The routine resets \<^verbatim>\<open>maxima_length\<close> and
  \<^verbatim>\<open>minima_length\<close> at entry, but the minima branch tests and advances \<^verbatim>\<open>min_index\<close>, which
  nothing resets. On the pit with capacity 1 the first run records the minimum \<open>(1, 1)\<close>
  and marks it in the map; the second run finds \<^verbatim>\<open>min_index = 1\<close>, not below the capacity,
  and records and marks nothing.
\<close>

theorem second_run_differs:
  "run_twice pit 3 3 1 (zeroed 9 1) =
     Inr (\<lparr>extrema = [0, 0, 0, 0, - 1, 0, 0, 0, 0],
           maxima_x = [0], maxima_y = [0], minima_x = [1], minima_y = [1],
           maxima_length = 0, minima_length = 0, min_index = 1\<rparr>,
          \<lparr>extrema = [0, 0, 0, 0, 0, 0, 0, 0, 0],
           maxima_x = [0], maxima_y = [0], minima_x = [0], minima_y = [0],
           maxima_length = 0, minima_length = 0, min_index = 1\<rparr>)"
  by code_simp

text \<open>
  C10. With \<^verbatim>\<open>imax\<close> and \<^verbatim>\<open>jmax\<close> at least 3, a grid and a map of \<^verbatim>\<open>imax * jmax\<close> cells and
  coordinate arrays of \<^verbatim>\<open>min_max_length\<close> entries, no access of the scan is out of bounds:
  the scan never stops with \<open>OutOfBounds\<close>. With a capacity below \<open>2^31\<close> it returns, and
  the buffers keep their sizes.
\<close>

theorem every_access_in_bounds:
  assumes "3 \<le> imax" "3 \<le> jmax"
    and "length data = unat imax * unat jmax"
    and "buffers_sized imax jmax min_max_length s"
  shows "cextrema data imax jmax min_max_length s \<noteq> Inl OutOfBounds \<and>
         (unat min_max_length < 2 ^ 31 \<longrightarrow>
            (\<exists>s'. cextrema data imax jmax min_max_length s = Inr s' \<and>
                  buffers_sized imax jmax min_max_length s'))"
  using scan_safe [OF assms] by (auto split: sum.splits)

theorem every_access_in_bounds_witness:
  "(3 :: size_t) \<le> 3 \<and> length peak = unat (3 :: size_t) * unat (3 :: size_t) \<and>
   buffers_sized 3 3 1 (zeroed 9 1) \<and> unat (1 :: size_t) < 2 ^ 31 \<and>
   cextrema peak 3 3 1 (zeroed 9 1) \<noteq> Inl OutOfBounds \<and>
   cextrema peak 3 3 1 (zeroed 9 1) =
     Inr \<lparr>extrema = [0, 0, 0, 0, 1, 0, 0, 0, 0],
          maxima_x = [1], maxima_y = [1], minima_x = [0], minima_y = [0],
          maxima_length = 1, minima_length = 0, min_index = 0\<rparr>"
proof -
  have d: "(3 :: size_t) \<le> 3" by simp
  have l: "length peak = unat (3 :: size_t) * unat (3 :: size_t)" by (simp add: peak_def)
  have b: "buffers_sized 3 3 1 (zeroed 9 1)" by (simp add: buffers_sized_def zeroed_def)
  have c: "unat (1 :: size_t) < 2 ^ 31" by simp
  have r: "cextrema peak 3 3 1 (zeroed 9 1) =
     Inr \<lparr>extrema = [0, 0, 0, 0, 1, 0, 0, 0, 0],
          maxima_x = [1], maxima_y = [1], minima_x = [0], minima_y = [0],
          maxima_length = 1, minima_length = 0, min_index = 0\<rparr>"
    by code_simp
  from every_access_in_bounds [OF d d l b] c
  have "cextrema peak 3 3 1 (zeroed 9 1) \<noteq> Inl OutOfBounds" by blast
  with d l b c r show ?thesis by blast
qed

section \<open>What a run depends on\<close>

text \<open>
  The routine sets \<^verbatim>\<open>maxima_length\<close> and \<^verbatim>\<open>minima_length\<close> to 0 before it reads them, so
  their values at entry do not matter. Of the counters only \<^verbatim>\<open>min_index\<close> is carried into
  a run.
\<close>

theorem counts_reset_at_entry:
  "cextrema data imax jmax min_max_length (s\<lparr>maxima_length := a, minima_length := b\<rparr>) =
   cextrema data imax jmax min_max_length s"
  by (simp add: cextrema_def)

section \<open>The examples of the specification\<close>

text \<open>
  A 5x5 grid of zeros with a single \<open>1\<close> in the centre, capacity 9. The centre is the
  one maximum. Each of the eight interior cells around it has no strictly smaller
  neighbour and, next to the centre, a strictly greater one: the scan classifies all eight
  as minima.
\<close>

theorem lone_peak_has_eight_minima:
  "cextrema [0, 0, 0, 0, 0,  0, 0, 0, 0, 0,  0, 0, 1, 0, 0,  0, 0, 0, 0, 0,  0, 0, 0, 0, 0 :: real]
     5 5 9 (zeroed 25 9) =
   Inr \<lparr>extrema = [0, 0, 0, 0, 0,  0, - 1, - 1, - 1, 0,  0, - 1, 1, - 1, 0,
                   0, - 1, - 1, - 1, 0,  0, 0, 0, 0, 0],
        maxima_x = [2, 0, 0, 0, 0, 0, 0, 0, 0], maxima_y = [2, 0, 0, 0, 0, 0, 0, 0, 0],
        minima_x = [1, 1, 1, 2, 2, 3, 3, 3, 0], minima_y = [1, 2, 3, 1, 3, 1, 2, 3, 0],
        maxima_length = 1, minima_length = 0, min_index = 8\<rparr>"
  by code_simp

text \<open>
  The same grid with \<open>-1\<close> in the centre: the centre is the one minimum and the eight
  cells around it are classified as maxima.
\<close>

theorem lone_pit_has_eight_maxima:
  "cextrema [0, 0, 0, 0, 0,  0, 0, 0, 0, 0,  0, 0, - 1, 0, 0,  0, 0, 0, 0, 0,  0, 0, 0, 0, 0 :: real]
     5 5 9 (zeroed 25 9) =
   Inr \<lparr>extrema = [0, 0, 0, 0, 0,  0, 1, 1, 1, 0,  0, 1, - 1, 1, 0,
                   0, 1, 1, 1, 0,  0, 0, 0, 0, 0],
        maxima_x = [1, 1, 1, 2, 2, 3, 3, 3, 0], maxima_y = [1, 2, 3, 1, 3, 1, 2, 3, 0],
        minima_x = [2, 0, 0, 0, 0, 0, 0, 0, 0], minima_y = [2, 0, 0, 0, 0, 0, 0, 0, 0],
        maxima_length = 8, minima_length = 0, min_index = 1\<rparr>"
  by code_simp

end
